theory Spec2Isabelle
  imports Complex_Main "HOL-Library.Sublist" "HOL-Library.AList"
begin

section \<open>Configuration (config.py)\<close>

text \<open>
  The module-level constants of \<^verbatim>\<open>config.py\<close> that the resilience core reads, as
  one record. Python floats are modelled as rationals: every float constant of the
  configuration is a multiple of one half, on which float arithmetic is exact far
  beyond any count a run reaches. A Python \<^verbatim>\<open>dict\<close> with string keys is an
  association list read with \<^const>\<open>map_of\<close>.
\<close>

record config =
  CHECKPOINT_ENABLED :: bool
  CHECKPOINT_CLEANUP_DAYS :: int
  CHECKPOINT_PHASES :: "string list"
  QUALITY_THRESHOLDS :: "(string \<times> int) list"
  QUALITY_PENALTY_ERROR :: rat
  QUALITY_PENALTY_RETRY :: rat
  QUALITY_PENALTY_MALFORMED :: rat
  QUALITY_PENALTY_MISMATCH :: rat
  MAX_RETRIES :: int
  RETRY_BACKOFF_FACTOR :: rat
  RETRY_MAX_WAIT :: rat
  ENABLE_PARALLEL :: bool
  MAX_WORKERS :: int
  API_RATE_LIMIT_RPM :: int
  API_RATE_LIMIT_TPM :: int

definition default_config :: config where
  "default_config =
     \<lparr> CHECKPOINT_ENABLED = True,
       CHECKPOINT_CLEANUP_DAYS = 30,
       CHECKPOINT_PHASES =
         [''utterances'', ''beliefs_raw'', ''canonical_beliefs'', ''clusters_updated''],
       QUALITY_THRESHOLDS = [(''A'', 90), (''B'', 80), (''C'', 70), (''D'', 60)],
       QUALITY_PENALTY_ERROR = 2,
       QUALITY_PENALTY_RETRY = 1 / 2,
       QUALITY_PENALTY_MALFORMED = 1,
       QUALITY_PENALTY_MISMATCH = 1 / 2,
       MAX_RETRIES = 3,
       RETRY_BACKOFF_FACTOR = 2,
       RETRY_MAX_WAIT = 60,
       ENABLE_PARALLEL = True,
       MAX_WORKERS = 5,
       API_RATE_LIMIT_RPM = 3500,
       API_RATE_LIMIT_TPM = 90000 \<rparr>"

section \<open>Quality scoring (src/utils/quality\_scorer.py)\<close>

text \<open>
  \<^verbatim>\<open>QualityMetrics\<close> is a dataclass of counters and message lists. Its methods mutate
  the object; here each returns the updated record. Logging has no effect on the
  state and is left out.
\<close>

record QualityMetrics =
  episode_id :: string
  errors_count :: int
  parsing_errors :: "string list"
  api_errors :: "string list"
  retries_count :: int
  malformed_beliefs_count :: int
  registry_mismatches_count :: int
  warnings :: "string list"
  execution_time_seconds :: rat
  timestamp :: string

definition QualityMetrics_init :: "string \<Rightarrow> string \<Rightarrow> QualityMetrics" where
  \<comment> \<open>the dataclass defaults; the second argument is \<^verbatim>\<open>datetime.now().isoformat()\<close>\<close>
  "QualityMetrics_init ep now_iso =
     \<lparr> episode_id = ep, errors_count = 0, parsing_errors = [], api_errors = [],
       retries_count = 0, malformed_beliefs_count = 0, registry_mismatches_count = 0,
       warnings = [], execution_time_seconds = 0, timestamp = now_iso \<rparr>"

definition add_parsing_error :: "string \<Rightarrow> QualityMetrics \<Rightarrow> QualityMetrics" where
  "add_parsing_error err m =
     m\<lparr> parsing_errors := parsing_errors m @ [err], errors_count := errors_count m + 1 \<rparr>"

definition add_api_error :: "string \<Rightarrow> QualityMetrics \<Rightarrow> QualityMetrics" where
  "add_api_error err m =
     m\<lparr> api_errors := api_errors m @ [err], errors_count := errors_count m + 1 \<rparr>"

definition add_retry :: "QualityMetrics \<Rightarrow> QualityMetrics" where
  "add_retry m = m\<lparr> retries_count := retries_count m + 1 \<rparr>"

definition add_malformed_belief :: "QualityMetrics \<Rightarrow> QualityMetrics" where
  "add_malformed_belief m = m\<lparr> malformed_beliefs_count := malformed_beliefs_count m + 1 \<rparr>"

definition add_registry_mismatch :: "QualityMetrics \<Rightarrow> QualityMetrics" where
  "add_registry_mismatch m =
     m\<lparr> registry_mismatches_count := registry_mismatches_count m + 1 \<rparr>"

definition add_warning :: "string \<Rightarrow> QualityMetrics \<Rightarrow> QualityMetrics" where
  "add_warning w m = m\<lparr> warnings := warnings m @ [w] \<rparr>"

text \<open>
  \<^verbatim>\<open>QualityScorer.calculate_score\<close>: four successive subtractions from 100.0, then
  \<^verbatim>\<open>max(0.0, score)\<close>.
\<close>

definition calculate_score :: "config \<Rightarrow> QualityMetrics \<Rightarrow> rat" where
  "calculate_score cfg m =
     (let score = 100;
          score = score - of_int (errors_count m) * QUALITY_PENALTY_ERROR cfg;
          score = score - of_int (retries_count m) * QUALITY_PENALTY_RETRY cfg;
          score = score - of_int (malformed_beliefs_count m) * QUALITY_PENALTY_MALFORMED cfg;
          score = score - of_int (registry_mismatches_count m) * QUALITY_PENALTY_MISMATCH cfg
      in max 0 score)"

text \<open>
  \<^verbatim>\<open>QualityScorer.calculate_grade\<close>: an \<^verbatim>\<open>if/elif\<close> chain over
  \<^verbatim>\<open>config.QUALITY_THRESHOLDS["A"]\<close> ... \<^verbatim>\<open>["D"]\<close>. A subscript on a missing key raises
  \<^verbatim>\<open>KeyError\<close>, and only the branches that are reached look their key up.
\<close>

datatype grade_error = KeyError string

definition threshold :: "config \<Rightarrow> string \<Rightarrow> grade_error + int" where
  "threshold cfg g =
     (case map_of (QUALITY_THRESHOLDS cfg) g of None \<Rightarrow> Inl (KeyError g) | Some t \<Rightarrow> Inr t)"

definition calculate_grade :: "config \<Rightarrow> rat \<Rightarrow> grade_error + string" where
  "calculate_grade cfg score =
     (case threshold cfg ''A'' of Inl e \<Rightarrow> Inl e | Inr a \<Rightarrow>
      if score \<ge> of_int a then Inr ''A'' else
     (case threshold cfg ''B'' of Inl e \<Rightarrow> Inl e | Inr b \<Rightarrow>
      if score \<ge> of_int b then Inr ''B'' else
     (case threshold cfg ''C'' of Inl e \<Rightarrow> Inl e | Inr c \<Rightarrow>
      if score \<ge> of_int c then Inr ''C'' else
     (case threshold cfg ''D'' of Inl e \<Rightarrow> Inl e | Inr d \<Rightarrow>
      if score \<ge> of_int d then Inr ''D'' else Inr ''F''))))"

text \<open>What the add-methods keep true of the counters, and what the weights of the
  configuration satisfy.\<close>

definition counters_nonneg :: "QualityMetrics \<Rightarrow> bool" where
  "counters_nonneg m \<longleftrightarrow>
     0 \<le> errors_count m \<and> 0 \<le> retries_count m \<and>
     0 \<le> malformed_beliefs_count m \<and> 0 \<le> registry_mismatches_count m"

definition penalties_nonneg :: "config \<Rightarrow> bool" where
  "penalties_nonneg cfg \<longleftrightarrow>
     0 \<le> QUALITY_PENALTY_ERROR cfg \<and> 0 \<le> QUALITY_PENALTY_RETRY cfg \<and>
     0 \<le> QUALITY_PENALTY_MALFORMED cfg \<and> 0 \<le> QUALITY_PENALTY_MISMATCH cfg"

section \<open>Checkpoints (src/utils/checkpoint.py)\<close>

subsection \<open>JSON documents and the checkpoint directory tree\<close>

text \<open>
  The values \<^verbatim>\<open>json.load\<close> returns: \<^verbatim>\<open>None\<close>, booleans, integers, floats (finite
  ones as rationals, and the NaN that the token \<^verbatim>\<open>NaN\<close> reads as), strings, lists, and
  dictionaries with string keys. A file written by \<^verbatim>\<open>json.dump\<close> is modelled by the
  value \<^verbatim>\<open>json.load\<close> reads from it; a file that is not a JSON document is \<open>Text\<close>.
\<close>

datatype json =
    JNull
  | JBool bool
  | JInt int
  | JNum rat
  | JStr string
  | JArr "json list"
  | JObj "(string \<times> json) list"
  | JNaN












datatype content = Json json | Text string

text \<open>
  \<^verbatim>\<open>config.CHECKPOINTS_DIR\<close> holds one directory per episode. An entry is a plain file
  or a directory with its modification time (seconds, as \<^verbatim>\<open>st_mtime\<close>) and its files;
  an episode directory holds plain files only. A file can be created in a directory
  under a name that is one path component: no separator, no NUL, and at most
  \<^verbatim>\<open>NAME_MAX\<close> (255) bytes.
\<close>

datatype node = File content | Dir rat "(string \<times> content) list"

type_synonym fs = "(string \<times> node) list"


text \<open>The exceptions of the module. A \<^verbatim>\<open>CheckpointError\<close> carries its message up to the
  text of the exception it wraps, which is left out.\<close>

datatype ckpt_error =
    CheckpointError string
  | FileExistsError string

record CheckpointManager =
  cm_episode_id :: string
  checkpoint_dir :: string

definition CheckpointManager_init ::
  "fs \<Rightarrow> rat \<Rightarrow> string \<Rightarrow> ckpt_error + (CheckpointManager \<times> fs)" where
  \<comment> \<open>\<^verbatim>\<open>mkdir(parents=True, exist_ok=True)\<close>: creates the directory unless it is there;
      raises when the path is a plain file\<close>
  "CheckpointManager_init tree now ep =
     (let mgr = \<lparr> cm_episode_id = ep, checkpoint_dir = ep \<rparr> in
      case map_of tree ep of
        None \<Rightarrow> Inr (mgr, tree @ [(ep, Dir now [])])
      | Some (Dir mt files) \<Rightarrow> Inr (mgr, tree)
      | Some (File c) \<Rightarrow> Inl (FileExistsError ep))"



definition lookup_file :: "fs \<Rightarrow> string \<Rightarrow> string \<Rightarrow> content option" where
  "lookup_file tree d name =
     (case map_of tree d of Some (Dir mt files) \<Rightarrow> map_of files name | _ \<Rightarrow> None)"





subsection \<open>CheckpointManager.save, load, exists, get\_last\_checkpoint\<close>



definition exists :: "CheckpointManager \<Rightarrow> fs \<Rightarrow> string \<Rightarrow> bool" where
  "exists mgr tree phase \<longleftrightarrow> lookup_file tree (checkpoint_dir mgr) (phase @ ''.json'') \<noteq> None"

definition get_last_checkpoint :: "config \<Rightarrow> CheckpointManager \<Rightarrow> fs \<Rightarrow> string option" where
  \<comment> \<open>\<^verbatim>\<open>for phase in reversed(config.CHECKPOINT_PHASES): if self.exists(phase): return phase\<close>\<close>
  "get_last_checkpoint cfg mgr tree = find (exists mgr tree) (rev (CHECKPOINT_PHASES cfg))"

subsection \<open>get\_resume\_point\<close>

fun index_of :: "'a list \<Rightarrow> 'a \<Rightarrow> nat option" where
  \<comment> \<open>\<^verbatim>\<open>list.index\<close>; \<open>None\<close> is the raised \<^verbatim>\<open>ValueError\<close>\<close>
  "index_of [] x = None"
| "index_of (y # ys) x = (if y = x then Some 0 else map_option Suc (index_of ys x))"

definition get_resume_point ::
  "config \<Rightarrow> fs \<Rightarrow> rat \<Rightarrow> string \<Rightarrow> ckpt_error + (string option \<times> fs)" where
  "get_resume_point cfg tree now ep =
     (case CheckpointManager_init tree now ep of
        Inl e \<Rightarrow> Inl e
      | Inr (manager, tree') \<Rightarrow>
          (case get_last_checkpoint cfg manager tree' of
             None \<Rightarrow> Inr (None, tree')
           | Some last_checkpoint \<Rightarrow>
               if last_checkpoint = [] then Inr (None, tree')
               else
                 (case index_of (CHECKPOINT_PHASES cfg) last_checkpoint of
                    None \<Rightarrow> Inr (None, tree')
                  | Some last_index \<Rightarrow>
                      if int last_index < int (length (CHECKPOINT_PHASES cfg)) - 1
                      then (let next_phase = CHECKPOINT_PHASES cfg ! (last_index + 1)
                            in Inr (Some last_checkpoint, tree'))
                      else Inr (Some last_checkpoint, tree'))))"

subsection \<open>cleanup\_old\_checkpoints\<close>

text \<open>
  Times are seconds; \<^verbatim>\<open>timedelta(days=days)\<close> is \<open>86400 * days\<close>. For every directory
  entry whose modification time is before the cutoff, the files matching
  \<^verbatim>\<open>*.json\<close> are unlinked, which sets the directory's modification time, and the
  directory is removed when nothing is left in it. The result is the number of files
  deleted with the new tree.
\<close>

definition is_json_name :: "string \<Rightarrow> bool" where
  "is_json_name name \<longleftrightarrow> suffix ''.json'' name"

definition cleanup_dir :: "rat \<Rightarrow> rat \<Rightarrow> string \<times> node \<Rightarrow> nat \<times> fs" where
  "cleanup_dir cutoff_date now entry =
     (case entry of
        (name, File c) \<Rightarrow> (0, [entry])
      | (name, Dir mtime files) \<Rightarrow>
          if mtime < cutoff_date then
            let deleted = filter (\<lambda>(f, c). is_json_name f) files;
                kept = filter (\<lambda>(f, c). \<not> is_json_name f) files
            in (length deleted,
                if kept = [] then []
                else [(name, Dir (if deleted = [] then mtime else now) kept)])
          else (0, [entry]))"

fun cleanup_loop :: "rat \<Rightarrow> rat \<Rightarrow> fs \<Rightarrow> nat \<Rightarrow> nat \<times> fs" where
  "cleanup_loop cutoff_date now [] deleted_count = (deleted_count, [])"
| "cleanup_loop cutoff_date now (entry # rest) deleted_count =
     (let (n, es) = cleanup_dir cutoff_date now entry;
          (total, rest') = cleanup_loop cutoff_date now rest (deleted_count + n)
      in (total, es @ rest'))"

definition cleanup_old_checkpoints :: "config \<Rightarrow> int option \<Rightarrow> rat \<Rightarrow> fs \<Rightarrow> nat \<times> fs" where
  "cleanup_old_checkpoints cfg days_arg now tree =
     (let days = (case days_arg of None \<Rightarrow> CHECKPOINT_CLEANUP_DAYS cfg | Some d \<Rightarrow> d) in
      if days \<le> 0 then (0, tree)
      else
        let cutoff_date = now - of_int days * 86400
        in cleanup_loop cutoff_date now tree 0)"

text \<open>Concrete trees and a configuration with the phase order A, B, C, used to run
  the checkpoint operations on explicit inputs.\<close>

definition abc_config :: config where
  "abc_config = default_config \<lparr> CHECKPOINT_PHASES := [''A'', ''B'', ''C''] \<rparr>"

definition ep1_manager :: CheckpointManager where
  "ep1_manager = \<lparr> cm_episode_id = ''ep1'', checkpoint_dir = ''ep1'' \<rparr>"

definition ab_saved :: fs where
  "ab_saved = [(''ep1'', Dir 0 [(''A.json'', Json (JArr [])), (''B.json'', Json (JArr []))])]"

definition two_phases_saved :: fs where
  "two_phases_saved =
     [(''ep1'', Dir 0 [(''utterances.json'', Json (JArr [])),
                       (''beliefs_raw.json'', Json (JArr []))])]"

definition two_runs :: fs where
  "two_runs =
     [(''old_run'', Dir 0 [(''utterances.json'', Json (JArr []))]),
      (''new_run'', Dir 100 [(''utterances.json'', Json (JArr []))])]"

section \<open>Rate limiting and parallel execution (src/utils/parallel.py)\<close>

subsection \<open>RateLimiter\<close>

text \<open>
  The two deques of the limiter are lists, oldest entry first. Timestamps are
  \<^verbatim>\<open>time.time()\<close> seconds, as rationals; the safety margin \<^verbatim>\<open>0.1\<close> is \<open>1/10\<close>.
  The lock makes each call atomic, so a run of the limiter is a sequence of calls.
\<close>

record RateLimiter =
  rpm :: int
  tpm :: int
  request_times :: "rat list"
  token_counts :: "(rat \<times> int) list"

definition RateLimiter_init :: "config \<Rightarrow> int option \<Rightarrow> int option \<Rightarrow> RateLimiter" where
  \<comment> \<open>\<^verbatim>\<open>rpm or config.API_RATE_LIMIT_RPM\<close>: \<^verbatim>\<open>None\<close> and 0 both take the configured value\<close>
  "RateLimiter_init cfg rpm_arg tpm_arg =
     \<lparr> rpm = (case rpm_arg of None \<Rightarrow> API_RATE_LIMIT_RPM cfg
              | Some r \<Rightarrow> if r = 0 then API_RATE_LIMIT_RPM cfg else r),
       tpm = (case tpm_arg of None \<Rightarrow> API_RATE_LIMIT_TPM cfg
              | Some t \<Rightarrow> if t = 0 then API_RATE_LIMIT_TPM cfg else t),
       request_times = [],
       token_counts = [] \<rparr>"

definition clean_old_entries :: "RateLimiter \<Rightarrow> rat \<Rightarrow> RateLimiter" where
  "clean_old_entries limiter current_time =
     (let cutoff = current_time - 60 in
      limiter\<lparr> request_times := dropWhile (\<lambda>t. t < cutoff) (request_times limiter),
           token_counts := dropWhile (\<lambda>(t, count). t < cutoff) (token_counts limiter) \<rparr>)"

datatype limiter_error = IndexError

text \<open>
  \<^verbatim>\<open>wait_if_needed(tokens)\<close>, called when the clock reads \<open>current_time\<close>. When it
  sleeps, the clock read after the sleep is \<open>current_time + wait_time + late\<close>, where
  \<open>late\<close> is how much longer than asked the sleep took. The result is the time waited
  and the limiter after the call. \<^verbatim>\<open>self.request_times[0]\<close> on an empty deque raises
  \<^verbatim>\<open>IndexError\<close> (reachable only with a negative \<open>rpm\<close>).
\<close>

definition wait_if_needed ::
  "RateLimiter \<Rightarrow> int \<Rightarrow> rat \<Rightarrow> rat \<Rightarrow> limiter_error + (rat \<times> RateLimiter)" where
  "wait_if_needed limiter0 tokens current_time late =
     (let limiter = clean_old_entries limiter0 current_time;
          wait_time = 0
      in if int (length (request_times limiter)) \<ge> rpm limiter \<and> request_times limiter = []
         then Inl IndexError
         else
           let wait_time =
                 (if int (length (request_times limiter)) \<ge> rpm limiter then
                    let oldest_request = hd (request_times limiter);
                        rpm_wait = 60 - (current_time - oldest_request) + 1 / 10
                    in max wait_time rpm_wait
                  else wait_time);
               wait_time =
                 (if tokens > 0 then
                    let current_tokens = sum_list (map snd (token_counts limiter)) in
                    if current_tokens + tokens > tpm limiter then
                      let oldest_token_time =
                            (if token_counts limiter \<noteq> [] then fst (hd (token_counts limiter))
                             else current_time);
                          tpm_wait = 60 - (current_time - oldest_token_time) + 1 / 10
                      in max wait_time tpm_wait
                    else wait_time
                  else wait_time);
               (current_time, limiter) =
                 (if wait_time > 0 then
                    let current_time = current_time + wait_time + late
                    in (current_time, clean_old_entries limiter current_time)
                  else (current_time, limiter));
               limiter = limiter\<lparr> request_times := request_times limiter @ [current_time] \<rparr>;
               limiter = (if tokens > 0
                      then limiter\<lparr> token_counts := token_counts limiter @ [(current_time, tokens)] \<rparr>
                      else limiter)
           in Inr (wait_time, limiter))"

text \<open>A caller's sequence of calls \<open>(tokens, current_time, late)\<close>, one after the other on
  the same limiter.\<close>

fun run_calls :: "RateLimiter \<Rightarrow> (int \<times> rat \<times> rat) list \<Rightarrow> limiter_error + RateLimiter" where
  "run_calls limiter [] = Inr limiter"
| "run_calls limiter ((tokens, current_time, late) # calls) =
     (case wait_if_needed limiter tokens current_time late of
        Inl e \<Rightarrow> Inl e
      | Inr (waited, limiter') \<Rightarrow> run_calls limiter' calls)"

definition window_total :: "RateLimiter \<Rightarrow> int" where
  \<comment> \<open>the units recorded in the token window\<close>
  "window_total limiter = sum_list (map snd (token_counts limiter))"

subsection \<open>ParallelExecutor.map\<close>

text \<open>
  The mapped function returns a Python value (\<open>None\<close> is Python's \<^verbatim>\<open>None\<close>) or raises.
  The sequential branch is the list comprehension \<^verbatim>\<open>[func(item) for item in items]\<close>: the
  first exception leaves the comprehension and \<^verbatim>\<open>map\<close>. The parallel branch submits
  every item and then stores the outcomes in the order the futures complete; this
  order, a list of the indices, is the only thing the number of workers and the
  scheduler decide. \<^verbatim>\<open>ThreadPoolExecutor\<close> raises \<^verbatim>\<open>ValueError\<close> for a number of
  workers below one.
\<close>

datatype 'e map_error = Raised 'e | PoolValueError

record ParallelExecutor =
  max_workers :: int
  rate_limiter :: "RateLimiter option"

definition ParallelExecutor_init ::
  "config \<Rightarrow> int option \<Rightarrow> RateLimiter option \<Rightarrow> ParallelExecutor" where
  "ParallelExecutor_init cfg max_workers_arg rl =
     \<lparr> max_workers = (case max_workers_arg of None \<Rightarrow> MAX_WORKERS cfg
                      | Some k \<Rightarrow> if k = 0 then MAX_WORKERS cfg else k),
       rate_limiter = rl \<rparr>"

fun sequential_map :: "('a \<Rightarrow> 'e + 'v) \<Rightarrow> 'a list \<Rightarrow> 'e map_error + 'v list" where
  "sequential_map func [] = Inr []"
| "sequential_map func (item # items) =
     (case func item of
        Inl e \<Rightarrow> Inl (Raised e)
      | Inr v \<Rightarrow>
          (case sequential_map func items of
             Inl e \<Rightarrow> Inl e
           | Inr vs \<Rightarrow> Inr (v # vs)))"

fun collect :: "('e + 'v option) list \<Rightarrow> nat list \<Rightarrow> 'v option list \<Rightarrow> 'v option list" where
  \<comment> \<open>\<^verbatim>\<open>for future in as_completed(...)\<close>: the outcome of task \<open>index\<close> goes to
      \<^verbatim>\<open>results[index]\<close>, \<^verbatim>\<open>None\<close> when the task raised\<close>
  "collect outcomes [] results = results"
| "collect outcomes (index # rest) results =
     collect outcomes rest
       (results[index := (case outcomes ! index of Inr v \<Rightarrow> v | Inl e \<Rightarrow> None)])"

definition map_executor ::
  "config \<Rightarrow> ParallelExecutor \<Rightarrow> nat list \<Rightarrow> ('a \<Rightarrow> 'e + 'v option) \<Rightarrow> 'a list \<Rightarrow>
   'e map_error + 'v option list" where
  "map_executor cfg ex completion_order func items =
     (if \<not> ENABLE_PARALLEL cfg \<or> max_workers ex = 1 then sequential_map func items
      else
        let results = replicate (length items) None in
        if max_workers ex \<le> 0 then Inl PoolValueError
        else Inr (collect (map func items) completion_order results))"

text \<open>A task function that raises on item 0 and returns its item otherwise.\<close>

definition fails_on_zero :: "int \<Rightarrow> string + int option" where
  "fails_on_zero x = (if x = 0 then Inl ''boom'' else Inr (Some x))"

section \<open>Retry with backoff (src/utils/retry.py)\<close>

text \<open>
  The wrapped function is called again and again, so it is a function from the number
  of earlier calls to the outcome of this call. A wrapper returns its outcome with
  the trace of what it did: each call of the function, each call of the
  \<^verbatim>\<open>on_retry\<close> callback with its arguments, each \<^verbatim>\<open>time.sleep\<close> with its duration.
  \<^verbatim>\<open>time.sleep\<close> raises \<^verbatim>\<open>ValueError\<close> on a negative duration.
\<close>

datatype 'e event = Invoke | OnRetry int 'e | Sleep rat

datatype 'e retry_error =
    Propagated 'e
  | RateLimitError int
  | RuntimeError
  | SleepValueError

record 'e retry_params =
  rp_max_retries :: int
  rp_backoff_factor :: rat
  rp_max_wait :: rat
  rp_exceptions :: "'e \<Rightarrow> bool"
  rp_on_retry :: bool

function retry_loop ::
  "'e retry_params \<Rightarrow> (nat \<Rightarrow> 'e + 'v) \<Rightarrow> int \<Rightarrow> nat \<Rightarrow> ('e retry_error + 'v) \<times> 'e event list"
  where
  "retry_loop p func retries calls =
     (if retries \<le> rp_max_retries p then
        (case func calls of
           Inr v \<Rightarrow> (Inr v, [Invoke])
         | Inl e \<Rightarrow>
             if \<not> rp_exceptions p e then (Inl (Propagated e), [Invoke])
             else
               let retries = retries + 1 in
               if retries > rp_max_retries p then (Inl (Propagated e), [Invoke])
               else
                 let wait_time = min (rp_backoff_factor p ^ nat retries) (rp_max_wait p);
                     called = (if rp_on_retry p then [OnRetry retries e] else [])
                 in if wait_time < 0 then (Inl SleepValueError, Invoke # called)
                    else
                      let (r, tr) = retry_loop p func retries (calls + 1)
                      in (r, Invoke # called @ Sleep wait_time # tr))
      else (Inl RuntimeError, []))"
  by pat_completeness auto
termination
  by (relation "measure (\<lambda>(p, func, retries, calls). nat (rp_max_retries p + 1 - retries))") auto

declare retry_loop.simps [simp del]

definition retry_with_backoff ::
  "config \<Rightarrow> int option \<Rightarrow> rat option \<Rightarrow> rat option \<Rightarrow> ('e \<Rightarrow> bool) \<Rightarrow> bool \<Rightarrow>
   (nat \<Rightarrow> 'e + 'v) \<Rightarrow> ('e retry_error + 'v) \<times> 'e event list" where
  "retry_with_backoff cfg max_retries backoff_factor max_wait exceptions on_retry func =
     retry_loop
       \<lparr> rp_max_retries = (case max_retries of None \<Rightarrow> MAX_RETRIES cfg | Some m \<Rightarrow> m),
         rp_backoff_factor =
           (case backoff_factor of None \<Rightarrow> RETRY_BACKOFF_FACTOR cfg | Some b \<Rightarrow> b),
         rp_max_wait = (case max_wait of None \<Rightarrow> RETRY_MAX_WAIT cfg | Some w \<Rightarrow> w),
         rp_exceptions = exceptions,
         rp_on_retry = on_retry \<rparr>
       func 0 0"

text \<open>\<^verbatim>\<open>RetryCounter\<close>: the callback \<^verbatim>\<open>increment\<close> adds one; a counter passed as
  \<^verbatim>\<open>on_retry\<close> sees the callback calls of the trace in order.\<close>

record RetryCounter =
  count :: int

definition increment :: "int \<Rightarrow> 'e \<Rightarrow> RetryCounter \<Rightarrow> RetryCounter" where
  "increment retry_num err c = c\<lparr> count := count c + 1 \<rparr>"

fun run_callbacks :: "'e event list \<Rightarrow> RetryCounter \<Rightarrow> RetryCounter" where
  "run_callbacks [] c = c"
| "run_callbacks (OnRetry n e # tr) c = run_callbacks tr (increment n e c)"
| "run_callbacks (ev # tr) c = run_callbacks tr c"

text \<open>What the trace of a run with \<open>k\<close> caught failures before the last call looks like:
  per failure the call, the callback (if one is given) and the sleep.\<close>

definition retry_step :: "'e retry_params \<Rightarrow> (nat \<Rightarrow> 'e) \<Rightarrow> nat \<Rightarrow> 'e event list" where
  "retry_step p errs i =
     Invoke # (if rp_on_retry p then [OnRetry (int i + 1) (errs i)] else [])
       @ [Sleep (min (rp_backoff_factor p ^ (i + 1)) (rp_max_wait p))]"

subsection \<open>retry\_openai\_call\<close>

text \<open>
  An exception raised by the wrapped call: its class name and \<^verbatim>\<open>str(e)\<close>. The
  substring test \<^verbatim>\<open>a in b\<close> is \<^const>\<open>sublist\<close>; \<^verbatim>\<open>str.lower\<close> is modelled on ASCII
  letters, which are the only characters whose lower case occurs in the markers.
\<close>

datatype exn = Exn (exn_type: string) (exn_msg: string)

definition lower_char :: "char \<Rightarrow> char" where
  "lower_char c =
     (let n = (of_char c :: nat) in if 65 \<le> n \<and> n \<le> 90 then char_of (n + 32) else c)"

definition lower :: "string \<Rightarrow> string" where
  "lower s = map lower_char s"

definition is_rate_limit :: "string \<Rightarrow> bool" where
  "is_rate_limit error_msg \<longleftrightarrow>
     sublist ''429'' error_msg \<or> sublist ''rate_limit'' (lower error_msg)"

definition is_timeout :: "string \<Rightarrow> bool" where
  "is_timeout error_msg \<longleftrightarrow>
     sublist ''timeout'' (lower error_msg) \<or> sublist ''timed out'' (lower error_msg)"

definition is_server_error :: "string \<Rightarrow> bool" where
  "is_server_error error_msg \<longleftrightarrow>
     list_ex (\<lambda>code. sublist code error_msg) [''500'', ''502'', ''503'', ''504'']"

function openai_loop ::
  "config \<Rightarrow> int \<Rightarrow> (nat \<Rightarrow> exn + 'v) \<Rightarrow> int \<Rightarrow> nat \<Rightarrow> (exn retry_error + 'v) \<times> exn event list"
  where
  "openai_loop cfg max_retries func retries calls =
     (if retries \<le> max_retries then
        (case func calls of
           Inr v \<Rightarrow> (Inr v, [Invoke])
         | Inl e \<Rightarrow>
             let error_msg = exn_msg e in
             if \<not> (is_rate_limit error_msg \<or> is_timeout error_msg \<or> is_server_error error_msg)
             then (Inl (Propagated e), [Invoke])
             else
               let retries = retries + 1 in
               if retries > max_retries then
                 (if is_rate_limit error_msg then (Inl (RateLimitError max_retries), [Invoke])
                  else (Inl (Propagated e), [Invoke]))
               else
                 let wait_time =
                       (if is_rate_limit error_msg then
                          min (RETRY_BACKOFF_FACTOR cfg ^ nat retries * 2) (RETRY_MAX_WAIT cfg)
                        else if is_timeout error_msg then
                          min (RETRY_BACKOFF_FACTOR cfg ^ nat retries) (RETRY_MAX_WAIT cfg)
                        else
                          min (RETRY_BACKOFF_FACTOR cfg ^ nat retries) (RETRY_MAX_WAIT cfg))
                 in if wait_time < 0 then (Inl SleepValueError, [Invoke])
                    else
                      let (r, tr) = openai_loop cfg max_retries func retries (calls + 1)
                      in (r, Invoke # Sleep wait_time # tr))
      else (Inl RuntimeError, []))"
  by pat_completeness auto
termination
  by (relation "measure (\<lambda>(cfg, max_retries, func, retries, calls). nat (max_retries + 1 - retries))")
    auto

declare openai_loop.simps [simp del]

definition retry_openai_call ::
  "config \<Rightarrow> int option \<Rightarrow> (nat \<Rightarrow> exn + 'v) \<Rightarrow> (exn retry_error + 'v) \<times> exn event list" where
  "retry_openai_call cfg max_retries func =
     openai_loop cfg (case max_retries of None \<Rightarrow> MAX_RETRIES cfg | Some m \<Rightarrow> m) func 0 0"

text \<open>The condition under which the wrapper retries (the negation of the
  \<^verbatim>\<open>if not (is_rate_limit or is_timeout or is_server_error)\<close> test), and the time it
  sleeps before retry number \<open>n\<close> after the error \<open>e\<close>.\<close>

definition retryable :: "exn \<Rightarrow> bool" where
  "retryable e \<longleftrightarrow>
     is_rate_limit (exn_msg e) \<or> is_timeout (exn_msg e) \<or> is_server_error (exn_msg e)"

definition openai_wait :: "config \<Rightarrow> exn \<Rightarrow> nat \<Rightarrow> rat" where
  "openai_wait cfg e n =
     (if is_rate_limit (exn_msg e)
      then min (RETRY_BACKOFF_FACTOR cfg ^ n * 2) (RETRY_MAX_WAIT cfg)
      else min (RETRY_BACKOFF_FACTOR cfg ^ n) (RETRY_MAX_WAIT cfg))"

fun invocations :: "'e event list \<Rightarrow> nat" where
  "invocations [] = 0"
| "invocations (Invoke # tr) = Suc (invocations tr)"
| "invocations (ev # tr) = invocations tr"

fun sleeps :: "'e event list \<Rightarrow> rat list" where
  "sleeps [] = []"
| "sleeps (Sleep w # tr) = w # sleeps tr"
| "sleeps (ev # tr) = sleeps tr"

section \<open>Concrete runs\<close>

text \<open>Inputs on which the limiter and the retry wrappers are run below: a limiter with a
  budget of 100 units per minute, \<^verbatim>\<open>exceptions=(Exception,)\<close>, an operation that fails
  twice and then returns 42, one that always fails, one that fails with a message
  carrying no retry marker, and one that times out once before it fails that way.\<close>

definition tpm100 :: RateLimiter where
  "tpm100 = RateLimiter_init default_config (Some 3500) (Some 100)"

definition catch_all :: "'e \<Rightarrow> bool" where
  "catch_all e = True"

definition flaky :: "nat \<Rightarrow> string + int" where
  "flaky n = (if n < 2 then Inl ''transient'' else Inr 42)"

definition always_down :: "nat \<Rightarrow> string + int" where
  "always_down n = Inl ''down''"

definition bad_key :: "nat \<Rightarrow> exn + int" where
  "bad_key n = Inl (Exn ''AuthenticationError'' ''Invalid API key'')"

definition timeout_then_bad_key :: "nat \<Rightarrow> exn + int" where
  "timeout_then_bad_key n =
     (if n = 0 then Inl (Exn ''APITimeoutError'' ''Request timed out.'')
      else Inl (Exn ''AuthenticationError'' ''Invalid API key''))"

section \<open>Properties of quality scoring\<close>

lemma counters_nonneg_init: "counters_nonneg (QualityMetrics_init ep ts)"
  by (simp add: counters_nonneg_def QualityMetrics_init_def)

lemma counters_nonneg_add:
  assumes "counters_nonneg m"
  shows "counters_nonneg (add_parsing_error e m)"
    and "counters_nonneg (add_api_error e m)"
    and "counters_nonneg (add_retry m)"
    and "counters_nonneg (add_malformed_belief m)"
    and "counters_nonneg (add_registry_mismatch m)"
    and "counters_nonneg (add_warning w m)"
  using assms
  by (simp_all add: counters_nonneg_def add_parsing_error_def add_api_error_def add_retry_def
      add_malformed_belief_def add_registry_mismatch_def add_warning_def)

lemma penalties_nonneg_default: "penalties_nonneg default_config"
  by (simp add: penalties_nonneg_def default_config_def)

lemma calculate_score_formula:
  "calculate_score cfg m =
     max 0 (100 - of_int (errors_count m) * QUALITY_PENALTY_ERROR cfg
                - of_int (retries_count m) * QUALITY_PENALTY_RETRY cfg
                - of_int (malformed_beliefs_count m) * QUALITY_PENALTY_MALFORMED cfg
                - of_int (registry_mismatches_count m) * QUALITY_PENALTY_MISMATCH cfg)"
  by (simp add: calculate_score_def Let_def)

lemma calculate_score_range:
  assumes "counters_nonneg m" and "penalties_nonneg cfg"
  shows "0 \<le> calculate_score cfg m \<and> calculate_score cfg m \<le> 100"
proof -
  have "0 \<le> of_int (errors_count m) * QUALITY_PENALTY_ERROR cfg"
    and "0 \<le> of_int (retries_count m) * QUALITY_PENALTY_RETRY cfg"
    and "0 \<le> of_int (malformed_beliefs_count m) * QUALITY_PENALTY_MALFORMED cfg"
    and "0 \<le> of_int (registry_mismatches_count m) * QUALITY_PENALTY_MISMATCH cfg"
    using assms by (simp_all add: counters_nonneg_def penalties_nonneg_def)
  then show ?thesis
    unfolding calculate_score_formula by simp
qed

lemma calculate_score_example:
  "calculate_score default_config
     (add_retry (add_api_error e2 (add_parsing_error e1 (QualityMetrics_init ep ts)))) = 955 / 10"
  by (simp add: calculate_score_def default_config_def add_retry_def add_api_error_def
      add_parsing_error_def QualityMetrics_init_def)

lemma calculate_grade_first_met:
  assumes "map_of (QUALITY_THRESHOLDS cfg) ''A'' = Some a"
    and "map_of (QUALITY_THRESHOLDS cfg) ''B'' = Some b"
    and "map_of (QUALITY_THRESHOLDS cfg) ''C'' = Some c"
    and "map_of (QUALITY_THRESHOLDS cfg) ''D'' = Some d"
  shows "calculate_grade cfg score =
     Inr (case find (\<lambda>(g, t). score \<ge> of_int t) [(''A'', a), (''B'', b), (''C'', c), (''D'', d)] of
            Some (g, t) \<Rightarrow> g | None \<Rightarrow> ''F'')"
  using assms by (simp add: calculate_grade_def threshold_def)

text \<open>
  C9. For every state of the counters that the add-methods can produce (all counts
  non-negative) and non-negative penalty weights, \<^verbatim>\<open>calculate_score\<close> returns
  \<open>max(0, 100 - errors * W_err - retries * W_retry - malformed * W_mal - mismatches * W_mis)\<close>,
  and the value lies between 0 and 100. With the weights of the configuration, two
  errors and one retry give 95.5, graded A. \<^verbatim>\<open>calculate_grade\<close> returns the first of
  A, B, C, D, tried in this order, whose configured cutoff the score meets, and F when
  none is met; the configured cutoffs 90, 80, 70, 60 make this order the descending one.
\<close>

theorem C9_score_and_grade:
  assumes "counters_nonneg m" and "penalties_nonneg cfg"
    and "map_of (QUALITY_THRESHOLDS cfg) ''A'' = Some a"
    and "map_of (QUALITY_THRESHOLDS cfg) ''B'' = Some b"
    and "map_of (QUALITY_THRESHOLDS cfg) ''C'' = Some c"
    and "map_of (QUALITY_THRESHOLDS cfg) ''D'' = Some d"
  shows "calculate_score cfg m =
           max 0 (100 - of_int (errors_count m) * QUALITY_PENALTY_ERROR cfg
                      - of_int (retries_count m) * QUALITY_PENALTY_RETRY cfg
                      - of_int (malformed_beliefs_count m) * QUALITY_PENALTY_MALFORMED cfg
                      - of_int (registry_mismatches_count m) * QUALITY_PENALTY_MISMATCH cfg)
       \<and> 0 \<le> calculate_score cfg m \<and> calculate_score cfg m \<le> 100
       \<and> calculate_score default_config
           (add_retry (add_api_error e2 (add_parsing_error e1 (QualityMetrics_init ep ts))))
           = 955 / 10
       \<and> calculate_grade default_config (955 / 10) = Inr ''A''
       \<and> calculate_grade cfg score =
           Inr (case find (\<lambda>(g, t). score \<ge> of_int t)
                       [(''A'', a), (''B'', b), (''C'', c), (''D'', d)] of
                  Some (g, t) \<Rightarrow> g | None \<Rightarrow> ''F'')"
proof -
  have "calculate_grade default_config (955 / 10) = Inr ''A''"
    by (simp add: calculate_grade_def threshold_def default_config_def)
  with calculate_score_formula [of cfg m] calculate_score_range [OF assms(1,2)]
    calculate_score_example [of e2 e1 ep ts] calculate_grade_first_met [OF assms(3-6), of score]
  show ?thesis by blast
qed

theorem C9_score_and_grade_witness:
  "calculate_score default_config
     (add_malformed_belief (add_retry (QualityMetrics_init ''ep1'' ''t0''))) = 197 / 2
   \<and> calculate_grade default_config 75 = Inr ''C''
   \<and> calculate_grade default_config 12 = Inr ''F''"
proof -
  let ?m = "add_malformed_belief (add_retry (QualityMetrics_init ''ep1'' ''t0''))"
  have nn: "counters_nonneg ?m"
    by (simp add: counters_nonneg_add counters_nonneg_init)
  have th: "map_of (QUALITY_THRESHOLDS default_config) ''A'' = Some 90"
    "map_of (QUALITY_THRESHOLDS default_config) ''B'' = Some 80"
    "map_of (QUALITY_THRESHOLDS default_config) ''C'' = Some 70"
    "map_of (QUALITY_THRESHOLDS default_config) ''D'' = Some 60"
    by (simp_all add: default_config_def)
  have s: "calculate_score default_config ?m = 197 / 2"
    using C9_score_and_grade [OF nn penalties_nonneg_default th, where score = 75]
    by (simp add: default_config_def add_malformed_belief_def add_retry_def
        QualityMetrics_init_def)
  have g1: "calculate_grade default_config 75 = Inr ''C''"
    using C9_score_and_grade [OF nn penalties_nonneg_default th, where score = 75] by simp
  have g2: "calculate_grade default_config 12 = Inr ''F''"
    using C9_score_and_grade [OF nn penalties_nonneg_default th, where score = 12] by simp
  from s g1 g2 show ?thesis by blast
qed

section \<open>Properties of the checkpoint store\<close>


















lemma find_rev_None: "find P (rev xs) = None \<longleftrightarrow> (\<forall>x\<in>set xs. \<not> P x)"
  by (auto simp: find_None_iff)

lemma find_rev_Some:
  "find P (rev xs) = Some x \<longleftrightarrow>
     (\<exists>i<length xs. xs ! i = x \<and> P x \<and> (\<forall>j<length xs. i < j \<longrightarrow> \<not> P (xs ! j)))"
proof (induction xs rule: rev_induct)
  case Nil
  then show ?case by simp
next
  case (snoc y xs)
  show ?case
  proof (cases "P y")
    case True
    have "(\<exists>i<length (xs @ [y]). (xs @ [y]) ! i = x \<and> P x \<and>
            (\<forall>j<length (xs @ [y]). i < j \<longrightarrow> \<not> P ((xs @ [y]) ! j))) \<longleftrightarrow> y = x"
    proof
      assume "\<exists>i<length (xs @ [y]). (xs @ [y]) ! i = x \<and> P x \<and>
            (\<forall>j<length (xs @ [y]). i < j \<longrightarrow> \<not> P ((xs @ [y]) ! j))"
      then obtain i where i: "i < length (xs @ [y])" "(xs @ [y]) ! i = x"
        "\<forall>j<length (xs @ [y]). i < j \<longrightarrow> \<not> P ((xs @ [y]) ! j)" by blast
      have "\<not> i < length xs"
      proof
        assume "i < length xs"
        with i(3) [rule_format, of "length xs"] have "\<not> P ((xs @ [y]) ! length xs)" by simp
        with True show False by simp
      qed
      with i(1) have "i = length xs" by simp
      with i(2) show "y = x" by simp
    next
      assume "y = x"
      with True show "\<exists>i<length (xs @ [y]). (xs @ [y]) ! i = x \<and> P x \<and>
            (\<forall>j<length (xs @ [y]). i < j \<longrightarrow> \<not> P ((xs @ [y]) ! j))"
        by (intro exI [of _ "length xs"]) simp
    qed
    with True show ?thesis by auto
  next
    case False
    have "(\<exists>i<length (xs @ [y]). (xs @ [y]) ! i = x \<and> P x \<and>
            (\<forall>j<length (xs @ [y]). i < j \<longrightarrow> \<not> P ((xs @ [y]) ! j))) \<longleftrightarrow>
          (\<exists>i<length xs. xs ! i = x \<and> P x \<and> (\<forall>j<length xs. i < j \<longrightarrow> \<not> P (xs ! j)))"
      (is "?L \<longleftrightarrow> ?R")
    proof
      assume ?L
      then obtain i where i: "i < length (xs @ [y])" "(xs @ [y]) ! i = x" "P x"
        "\<forall>j<length (xs @ [y]). i < j \<longrightarrow> \<not> P ((xs @ [y]) ! j)" by blast
      have il: "i < length xs"
      proof (rule ccontr)
        assume "\<not> i < length xs"
        with i(1) have "i = length xs" by simp
        with i(2) have "y = x" by simp
        with i(3) False show False by simp
      qed
      have "\<forall>j<length xs. i < j \<longrightarrow> \<not> P (xs ! j)"
      proof (intro allI impI)
        fix j assume j: "j < length xs" "i < j"
        with i(4) have "\<not> P ((xs @ [y]) ! j)" by simp
        with j(1) show "\<not> P (xs ! j)" by (simp add: nth_append)
      qed
      with il i(2,3) show ?R by (auto simp: nth_append)
    next
      assume ?R
      then obtain i where i: "i < length xs" "xs ! i = x" "P x"
        "\<forall>j<length xs. i < j \<longrightarrow> \<not> P (xs ! j)" by blast
      have "\<forall>j<length (xs @ [y]). i < j \<longrightarrow> \<not> P ((xs @ [y]) ! j)"
      proof (intro allI impI)
        fix j assume j: "j < length (xs @ [y])" "i < j"
        show "\<not> P ((xs @ [y]) ! j)"
        proof (cases "j < length xs")
          case True
          with i(4) j(2) show ?thesis by (simp add: nth_append)
        next
          case f: False
          with j(1) have "j = length xs" by simp
          with False show ?thesis by simp
        qed
      qed
      with i(1,2,3) show ?L
        by (intro exI [of _ i]) (simp add: nth_append)
    qed
    with False snoc.IH show ?thesis by simp
  qed
qed

text \<open>
  C7. \<^verbatim>\<open>get_last_checkpoint\<close> returns \<^verbatim>\<open>None\<close> exactly when no phase of the configured
  order has a checkpoint, and returns \<open>p\<close> exactly when \<open>p\<close> stands at a position of the
  order, has a checkpoint, and no phase at a later position has one. With the order
  A, B, C and checkpoints for A and B only, it returns B.
\<close>

theorem C7_last_checkpoint:
  "(get_last_checkpoint cfg mgr tree = None \<longleftrightarrow>
      (\<forall>p \<in> set (CHECKPOINT_PHASES cfg). \<not> exists mgr tree p))
   \<and> (\<forall>p. get_last_checkpoint cfg mgr tree = Some p \<longleftrightarrow>
        (\<exists>i<length (CHECKPOINT_PHASES cfg).
            CHECKPOINT_PHASES cfg ! i = p \<and> exists mgr tree p \<and>
            (\<forall>j<length (CHECKPOINT_PHASES cfg). i < j \<longrightarrow>
                \<not> exists mgr tree (CHECKPOINT_PHASES cfg ! j))))
   \<and> (CHECKPOINT_PHASES cfg = [A, B, C] \<and> exists mgr tree A \<and> exists mgr tree B \<and>
        \<not> exists mgr tree C \<longrightarrow> get_last_checkpoint cfg mgr tree = Some B)"
proof (intro conjI allI)
  show "get_last_checkpoint cfg mgr tree = None \<longleftrightarrow>
      (\<forall>p \<in> set (CHECKPOINT_PHASES cfg). \<not> exists mgr tree p)"
    unfolding get_last_checkpoint_def by (rule find_rev_None)
  show "get_last_checkpoint cfg mgr tree = Some p \<longleftrightarrow>
        (\<exists>i<length (CHECKPOINT_PHASES cfg).
            CHECKPOINT_PHASES cfg ! i = p \<and> exists mgr tree p \<and>
            (\<forall>j<length (CHECKPOINT_PHASES cfg). i < j \<longrightarrow>
                \<not> exists mgr tree (CHECKPOINT_PHASES cfg ! j)))" for p
    unfolding get_last_checkpoint_def by (rule find_rev_Some)
  show "CHECKPOINT_PHASES cfg = [A, B, C] \<and> exists mgr tree A \<and> exists mgr tree B \<and>
        \<not> exists mgr tree C \<longrightarrow> get_last_checkpoint cfg mgr tree = Some B"
    by (simp add: get_last_checkpoint_def)
qed

theorem C7_last_checkpoint_witness:
  "get_last_checkpoint abc_config ep1_manager ab_saved = Some ''B''"
proof -
  have "CHECKPOINT_PHASES abc_config = [''A'', ''B'', ''C'']"
    by (simp add: abc_config_def)
  moreover have "exists ep1_manager ab_saved ''A''" "exists ep1_manager ab_saved ''B''"
    "\<not> exists ep1_manager ab_saved ''C''"
    by (simp_all add: exists_def lookup_file_def ab_saved_def ep1_manager_def)
  ultimately show ?thesis
    using C7_last_checkpoint [of abc_config ep1_manager ab_saved "''A''" "''B''" "''C''"]
    by blast
qed

lemma index_of_mem: "x \<in> set xs \<Longrightarrow> \<exists>i. index_of xs x = Some i"
  by (induction xs) auto

text \<open>
  C10. Whenever no configured phase name is the empty string (as in the configuration
  of the repository), \<^verbatim>\<open>get_resume_point(episode_id)\<close> returns what
  \<^verbatim>\<open>CheckpointManager(episode_id).get_last_checkpoint()\<close> returns: the last completed
  phase itself, or \<^verbatim>\<open>None\<close>; it fails exactly when the constructor fails. The next
  phase it computes is not part of the result.
\<close>

theorem C10_resume_point_is_last_checkpoint:
  assumes "[] \<notin> set (CHECKPOINT_PHASES cfg)"
  shows "get_resume_point cfg tree now ep =
     (case CheckpointManager_init tree now ep of
        Inl e \<Rightarrow> Inl e
      | Inr (manager, tree') \<Rightarrow> Inr (get_last_checkpoint cfg manager tree', tree'))"
proof (cases "CheckpointManager_init tree now ep")
  case (Inl e)
  then show ?thesis by (simp add: get_resume_point_def)
next
  case (Inr r)
  obtain manager tree' where r: "r = (manager, tree')" by (cases r)
  show ?thesis
  proof (cases "get_last_checkpoint cfg manager tree'")
    case None
    with Inr r show ?thesis by (simp add: get_resume_point_def)
  next
    case (Some p)
    then have "p \<in> set (CHECKPOINT_PHASES cfg)"
      unfolding get_last_checkpoint_def by (metis find_Some_iff nth_mem set_rev)
    with assms index_of_mem [of p "CHECKPOINT_PHASES cfg"]
    obtain i where "p \<noteq> []" "index_of (CHECKPOINT_PHASES cfg) p = Some i" by auto
    with Inr r Some show ?thesis by (simp add: get_resume_point_def Let_def)
  qed
qed

theorem C10_resume_point_is_last_checkpoint_witness:
  "get_resume_point default_config two_phases_saved 7 ''ep1''
     = Inr (Some ''beliefs_raw'', two_phases_saved)"
proof -
  have ne: "[] \<notin> set (CHECKPOINT_PHASES default_config)"
    by (simp add: default_config_def)
  show ?thesis
    using C10_resume_point_is_last_checkpoint [OF ne, of two_phases_saved 7 "''ep1''"]
    by (simp add: CheckpointManager_init_def get_last_checkpoint_def exists_def lookup_file_def
        default_config_def two_phases_saved_def)
qed

lemma cleanup_dir_names: "fst ` set (snd (cleanup_dir c now (n, nd))) \<subseteq> {n}"
  by (auto simp: cleanup_dir_def Let_def split: node.splits if_splits)

lemma cleanup_loop_names:
  "fst ` set (snd (cleanup_loop c now es k)) \<subseteq> fst ` set es"
proof (induction es arbitrary: k)
  case Nil
  then show ?case by simp
next
  case (Cons e es)
  obtain n nd where e: "e = (n, nd)" by (cases e)
  obtain d r where cd: "cleanup_dir c now (n, nd) = (d, r)" by (cases "cleanup_dir c now (n, nd)")
  obtain t r' where cl: "cleanup_loop c now es (k + d) = (t, r')"
    by (cases "cleanup_loop c now es (k + d)")
  from cleanup_dir_names [of c now n nd] cd have "fst ` set r \<subseteq> {n}" by simp
  moreover from Cons.IH [of "k + d"] cl have "fst ` set r' \<subseteq> fst ` set es" by simp
  ultimately show ?case using e cd cl by auto
qed

lemma cleanup_loop_map_of:
  assumes "distinct (map fst es)"
  shows "map_of (snd (cleanup_loop c now es k)) name =
     (case map_of es name of
        None \<Rightarrow> None
      | Some nd \<Rightarrow> map_of (snd (cleanup_dir c now (name, nd))) name)"
  using assms
proof (induction es arbitrary: k)
  case Nil
  then show ?case by simp
next
  case (Cons e es)
  obtain n nd where e: "e = (n, nd)" by (cases e)
  obtain d r where cd: "cleanup_dir c now (n, nd) = (d, r)" by (cases "cleanup_dir c now (n, nd)")
  obtain t r' where cl: "cleanup_loop c now es (k + d) = (t, r')"
    by (cases "cleanup_loop c now es (k + d)")
  from Cons.prems e have dist: "distinct (map fst es)" and nin: "n \<notin> fst ` set es" by auto
  have step: "map_of (snd (cleanup_loop c now (e # es) k)) name = (map_of r' ++ map_of r) name"
    using e cd cl by simp
  have ih: "map_of r' name =
     (case map_of es name of None \<Rightarrow> None
      | Some nd \<Rightarrow> map_of (snd (cleanup_dir c now (name, nd))) name)"
    using Cons.IH [OF dist, of "k + d"] cl by simp
  show ?case
  proof (cases "name = n")
    case True
    from cleanup_loop_names [of c now es "k + d"] cl nin have "n \<notin> fst ` set r'" by auto
    then have "map_of r' n = None" by (simp add: map_of_eq_None_iff)
    with True step e cd show ?thesis
      by (simp add: map_add_def split: option.splits)
  next
    case False
    from cleanup_dir_names [of c now n nd] cd False have "name \<notin> fst ` set r" by auto
    then have "map_of r name = None" by (simp add: map_of_eq_None_iff)
    with False step ih e show ?thesis by (simp add: map_add_def)
  qed
qed

text \<open>
  C8, as the code has it. For \<open>days > 0\<close> and a checkpoints directory with distinct
  entry names, \<^verbatim>\<open>cleanup_old_checkpoints(days)\<close> treats each entry by its kind and its
  modification time alone: a directory modified strictly before \<open>now - days\<close> loses
  every \<^verbatim>\<open>*.json\<close> file and is removed when nothing else is in it; a directory
  modified at or after the cutoff, and every plain file, is left exactly as it was.
  No file content is read.
\<close>

theorem C8_cleanup_strictly_older:
  assumes "0 < days" and "distinct (map fst tree)"
  shows "map_of (snd (cleanup_old_checkpoints cfg (Some days) now tree)) name =
     (case map_of tree name of
        None \<Rightarrow> None
      | Some (File c) \<Rightarrow> Some (File c)
      | Some (Dir mtime files) \<Rightarrow>
          if mtime < now - of_int days * 86400 then
            (if \<forall>(f, c) \<in> set files. is_json_name f then None
             else Some (Dir (if \<exists>(f, c) \<in> set files. is_json_name f then now else mtime)
                         (filter (\<lambda>(f, c). \<not> is_json_name f) files)))
          else Some (Dir mtime files))"
proof -
  have "map_of (snd (cleanup_old_checkpoints cfg (Some days) now tree)) name =
     (case map_of tree name of
        None \<Rightarrow> None
      | Some nd \<Rightarrow> map_of (snd (cleanup_dir (now - of_int days * 86400) now (name, nd))) name)"
    using assms by (simp add: cleanup_old_checkpoints_def cleanup_loop_map_of)
  also have "\<dots> =
     (case map_of tree name of
        None \<Rightarrow> None
      | Some (File c) \<Rightarrow> Some (File c)
      | Some (Dir mtime files) \<Rightarrow>
          if mtime < now - of_int days * 86400 then
            (if \<forall>(f, c) \<in> set files. is_json_name f then None
             else Some (Dir (if \<exists>(f, c) \<in> set files. is_json_name f then now else mtime)
                         (filter (\<lambda>(f, c). \<not> is_json_name f) files)))
          else Some (Dir mtime files))"
    by (auto simp: cleanup_dir_def Let_def filter_empty_conv split: option.splits node.splits)
  finally show ?thesis .
qed

theorem C8_cleanup_strictly_older_witness:
  "map_of (snd (cleanup_old_checkpoints default_config (Some 30) 2592001 two_runs)) ''old_run''
     = None
   \<and> map_of (snd (cleanup_old_checkpoints default_config (Some 30) 2592001 two_runs)) ''new_run''
       = Some (Dir 100 [(''utterances.json'', Json (JArr []))])"
proof -
  have d: "distinct (map fst two_runs)" by (simp add: two_runs_def)
  have p: "(0::int) < 30" by simp
  show ?thesis
    using C8_cleanup_strictly_older [OF p d, of default_config 2592001 "''old_run''"]
      C8_cleanup_strictly_older [OF p d, of default_config 2592001 "''new_run''"]
    by (simp add: two_runs_def is_json_name_def suffix_to_prefix)
qed

text \<open>
  The claim as the specification words it fails on the boundary: a directory modified
  exactly 30 days before now is at least 30 days old, and the cleanup leaves it and its
  checkpoint in place.
\<close>

theorem C8_exactly_days_old_counterexample:
  "(30 * 86400 :: rat) - 0 \<ge> of_int 30 * 86400
   \<and> cleanup_old_checkpoints default_config (Some 30) (30 * 86400)
       [(''run'', Dir 0 [(''utterances.json'', Json (JArr []))])]
     = (0, [(''run'', Dir 0 [(''utterances.json'', Json (JArr []))])])"
  by (simp add: cleanup_old_checkpoints_def cleanup_dir_def)

section \<open>Properties of the rate limiter\<close>

text \<open>
  C1. The claim: whatever the sequence of calls, the units recorded in the token window
  over any 60 seconds never exceed the budget. The code waits only until the oldest
  entry of the window has expired and then admits the request without looking at the
  total again. With a budget of 100: 10 units at time 0 and 90 units at time 1 are
  admitted at once; 50 units asked at time 2 wait 58.1 seconds, until the entry of
  time 0 has left the window, and are recorded at time 60.1 beside the 90 units of
  time 1. The window then holds 140 units within 59.1 seconds.
\<close>

theorem C1_window_exceeds_budget:
  "run_calls tpm100 [(10, 0, 0), (90, 1, 0), (50, 2, 0)]
     = Inr \<lparr> rpm = 3500, tpm = 100, request_times = [1, 601 / 10],
             token_counts = [(1, 90), (601 / 10, 50)] \<rparr>
   \<and> window_total \<lparr> rpm = 3500, tpm = 100, request_times = [1, 601 / 10],
             token_counts = [(1, 90), (601 / 10, 50)] \<rparr> = 140
   \<and> (601 / 10 - 1 :: rat) < 60"
  by (simp add: tpm100_def RateLimiter_init_def wait_if_needed_def clean_old_entries_def
      Let_def window_total_def)

section \<open>Properties of the executor\<close>

lemma collect_length: "length (collect outs order results) = length results"
  by (induction order arbitrary: results) simp_all

lemma collect_nth:
  assumes "i < length results"
  shows "collect outs order results ! i =
     (if i \<in> set order then (case outs ! i of Inr v \<Rightarrow> v | Inl e \<Rightarrow> None) else results ! i)"
  using assms
proof (induction order arbitrary: results)
  case Nil
  then show ?case by simp
next
  case (Cons index rest)
  let ?r = "results[index := (case outs ! index of Inr v \<Rightarrow> v | Inl e \<Rightarrow> None)]"
  from Cons.prems have len: "i < length ?r" by simp
  show ?case
  proof (cases "i = index")
    case True
    with Cons.IH [OF len] Cons.prems show ?thesis by simp
  next
    case False
    with Cons.IH [OF len] show ?thesis by simp
  qed
qed

lemma collect_all:
  assumes "{0..<length items} \<subseteq> set order"
  shows "collect (map func items) order (replicate (length items) None) =
     map (\<lambda>item. case func item of Inr v \<Rightarrow> v | Inl e \<Rightarrow> None) items"
proof (rule nth_equalityI)
  show "length (collect (map func items) order (replicate (length items) None)) =
        length (map (\<lambda>item. case func item of Inr v \<Rightarrow> v | Inl e \<Rightarrow> None) items)"
    by (simp add: collect_length)
next
  fix i assume "i < length (collect (map func items) order (replicate (length items) None))"
  then have i: "i < length items" by (simp add: collect_length)
  with assms have "i \<in> set order" by auto
  with i show "collect (map func items) order (replicate (length items) None) ! i =
        map (\<lambda>item. case func item of Inr v \<Rightarrow> v | Inl e \<Rightarrow> None) items ! i"
    by (simp add: collect_nth)
qed

lemma sequential_map_total:
  assumes "\<forall>item \<in> set items. \<exists>v. func item = Inr v"
  shows "sequential_map func items = Inr (map (\<lambda>item. case func item of Inr v \<Rightarrow> v | Inl e \<Rightarrow> None) items)"
  using assms by (induction items) auto

lemma sequential_map_raises:
  assumes "item \<in> set items" and "func item = Inl e"
  shows "\<exists>e'. sequential_map func items = Inl (Raised e')"
  using assms by (induction items) (auto split: sum.splits)

lemma map_executor_parallel:
  assumes "ENABLE_PARALLEL cfg" and "1 < max_workers ex"
    and "{0..<length items} \<subseteq> set order"
  shows "map_executor cfg ex order func items =
     Inr (map (\<lambda>item. case func item of Inr v \<Rightarrow> v | Inl e \<Rightarrow> None) items)"
  using assms by (simp add: map_executor_def collect_all)

lemma map_executor_same_without_failures:
  assumes "\<forall>item \<in> set items. \<exists>v. func item = Inr v"
    and "ENABLE_PARALLEL cfg" and "max_workers ex1 = 1" and "1 < max_workers exK"
    and "{0..<length items} \<subseteq> set order"
  shows "map_executor cfg ex1 order1 func items = map_executor cfg exK order func items"
  using assms by (simp add: map_executor_def collect_all sequential_map_total)

text \<open>
  C2. The claim: one worker and \<open>K\<close> workers give the same results for every
  deterministic function, also one that raises on some items. For a function that
  never raises the two branches agree (\<open>map_executor_same_without_failures\<close>). For the
  items 1, 0, 2 and a function that raises on 0, the sequential branch lets the
  exception leave \<^verbatim>\<open>map\<close>, while four workers return the results with \<^verbatim>\<open>None\<close> in the
  slot of the failed item.
\<close>

theorem C2_sequential_and_parallel_differ:
  "map_executor default_config (ParallelExecutor_init default_config (Some 1) None) [2, 0, 1]
      fails_on_zero [1, 0, 2] = Inl (Raised ''boom'')
   \<and> map_executor default_config (ParallelExecutor_init default_config (Some 4) None) [2, 0, 1]
      fails_on_zero [1, 0, 2] = Inr [Some 1, None, Some 2]"
  by (simp add: map_executor_def ParallelExecutor_init_def default_config_def fails_on_zero_def)

theorem C2_sequential_and_parallel_differ_witness:
  "map_executor default_config (ParallelExecutor_init default_config (Some 1) None) [2, 0, 1]
      fails_on_zero [1, 0, 2]
   \<noteq> map_executor default_config (ParallelExecutor_init default_config (Some 4) None) [2, 0, 1]
      fails_on_zero [1, 0, 2]"
  using C2_sequential_and_parallel_differ by simp

text \<open>In the parallel branch (parallelism enabled, more than one worker), once every
  future has completed, a failure stays in its own slot: the call returns one result
  per item, \<^verbatim>\<open>None\<close> for the item whose call raised, and for every other item the
  outcome of the function on it.\<close>

lemma map_executor_parallel_failure_isolated:
  assumes "ENABLE_PARALLEL cfg" and "1 < max_workers ex"
    and "set completion_order = {0..<length items}"
    and "i < length items" and "func (items ! i) = Inl e"
  shows "\<exists>results. map_executor cfg ex completion_order func items = Inr results
       \<and> length results = length items
       \<and> results ! i = None
       \<and> (\<forall>j<length items. j \<noteq> i \<longrightarrow>
             results ! j = (case func (items ! j) of Inr v \<Rightarrow> v | Inl e' \<Rightarrow> None))"
proof -
  from assms(3) have "{0..<length items} \<subseteq> set completion_order" by simp
  with assms(1,2) have "map_executor cfg ex completion_order func items =
      Inr (map (\<lambda>item. case func item of Inr v \<Rightarrow> v | Inl e \<Rightarrow> None) items)"
    by (rule map_executor_parallel)
  moreover have "map (\<lambda>item. case func item of Inr v \<Rightarrow> v | Inl e \<Rightarrow> None) items ! i = None"
    using assms(4,5) by simp
  ultimately show ?thesis by simp
qed

text \<open>
  C3. The claim: whenever the function raises for item \<open>i\<close> during \<^verbatim>\<open>map\<close>, slot \<open>i\<close> of the
  results is \<^verbatim>\<open>None\<close>, the other slots are unaffected, the call completes over all
  items and no error escapes. The parallel branch does this
  (\<open>map_executor_parallel_failure_isolated\<close>). The sequential branch, taken with one
  worker or with parallelism disabled, has no handler around the call: for the items
  5, 0, 7 and a function that raises on 0, the exception leaves \<^verbatim>\<open>map\<close> and there is
  no results list, in place of the results 5, \<^verbatim>\<open>None\<close>, 7.
\<close>

theorem C3_sequential_error_escapes:
  "map_executor default_config (ParallelExecutor_init default_config (Some 1) None) [0, 1, 2]
      fails_on_zero [5, 0, 7] = Inl (Raised ''boom'')
   \<and> map_executor (default_config \<lparr> ENABLE_PARALLEL := False \<rparr>)
        (ParallelExecutor_init default_config (Some 4) None) [0, 1, 2]
      fails_on_zero [5, 0, 7] = Inl (Raised ''boom'')"
  by (simp add: map_executor_def ParallelExecutor_init_def default_config_def fails_on_zero_def)

theorem C3_sequential_error_escapes_witness:
  "map_executor default_config (ParallelExecutor_init default_config (Some 1) None) [0, 1, 2]
      fails_on_zero [5, 0, 7] \<noteq> Inr [Some 5, None, Some 7]"
  using C3_sequential_error_escapes by simp

section \<open>Properties of the retry wrappers\<close>

lemma retry_loop_returns:
  assumes "int r \<le> rp_max_retries p" and "func r = Inr v"
  shows "retry_loop p func (int r) r = (Inr v, [Invoke])"
  using assms by (subst retry_loop.simps) simp

lemma retry_loop_gives_up:
  assumes "int r = rp_max_retries p" and "func r = Inl e" and "rp_exceptions p e"
  shows "retry_loop p func (int r) r = (Inl (Propagated e), [Invoke])"
  using assms by (subst retry_loop.simps) (simp add: Let_def)

lemma retry_loop_retries:
  assumes "func r = Inl (errs r)" and "rp_exceptions p (errs r)"
    and "int r + 1 \<le> rp_max_retries p"
    and "0 \<le> rp_backoff_factor p" and "0 \<le> rp_max_wait p"
  shows "retry_loop p func (int r) r =
     (fst (retry_loop p func (int (Suc r)) (Suc r)),
      retry_step p errs r @ snd (retry_loop p func (int (Suc r)) (Suc r)))"
proof -
  have n: "nat (int r + 1) = r + 1" by simp
  have "0 \<le> min (rp_backoff_factor p ^ (r + 1)) (rp_max_wait p)"
    using assms(4,5) by (intro min.boundedI zero_le_power)
  then have w: "\<not> min (rp_backoff_factor p ^ (r + 1)) (rp_max_wait p) < 0"
    by (simp only: not_less)
  have s: "int r + 1 = int (Suc r)" by simp
  show ?thesis
    apply (subst retry_loop.simps)
    using assms(1-3) w
    apply (simp only: Let_def n retry_step_def)
    apply (simp add: case_prod_beta s del: of_nat_Suc)
    done
qed

lemma retry_loop_success:
  assumes "0 \<le> rp_backoff_factor p" and "0 \<le> rp_max_wait p"
    and "int r + int n \<le> rp_max_retries p"
    and "\<forall>i<n. func (r + i) = Inl (errs (r + i)) \<and> rp_exceptions p (errs (r + i))"
    and "func (r + n) = Inr v"
  shows "retry_loop p func (int r) r =
           (Inr v, concat (map (retry_step p errs) [r..<r + n]) @ [Invoke])"
  using assms(3-5)
proof (induction n arbitrary: r)
  case 0
  then show ?case by (simp add: retry_loop_returns)
next
  case (Suc n)
  from Suc.prems(2) [rule_format, of 0]
  have f: "func r = Inl (errs r)" and c: "rp_exceptions p (errs r)" by simp_all
  from Suc.prems(1) have le: "int r + 1 \<le> rp_max_retries p" by simp
  have "int (Suc r) + int n \<le> rp_max_retries p" using Suc.prems(1) by simp
  moreover have "\<forall>i<n. func (Suc r + i) = Inl (errs (Suc r + i)) \<and> rp_exceptions p (errs (Suc r + i))"
  proof (intro allI impI)
    fix i assume "i < n"
    then have "Suc i < Suc n" by simp
    from Suc.prems(2) [rule_format, OF this]
    show "func (Suc r + i) = Inl (errs (Suc r + i)) \<and> rp_exceptions p (errs (Suc r + i))"
      by simp
  qed
  moreover have "func (Suc r + n) = Inr v" using Suc.prems(3) by simp
  ultimately have ih: "retry_loop p func (int (Suc r)) (Suc r) =
           (Inr v, concat (map (retry_step p errs) [Suc r..<Suc r + n]) @ [Invoke])"
    by (rule Suc.IH)
  have up: "[r..<r + Suc n] = r # [Suc r..<Suc r + n]"
    by (simp add: upt_conv_Cons)
  show ?case
    unfolding retry_loop_retries [of func r errs p, OF f c le assms(1,2)] ih up
    by simp
qed

lemma retry_loop_exhausted:
  assumes "0 \<le> rp_backoff_factor p" and "0 \<le> rp_max_wait p"
    and "int r + int n = rp_max_retries p"
    and "\<forall>i\<le>n. func (r + i) = Inl (errs (r + i)) \<and> rp_exceptions p (errs (r + i))"
  shows "retry_loop p func (int r) r =
           (Inl (Propagated (errs (r + n))),
            concat (map (retry_step p errs) [r..<r + n]) @ [Invoke])"
  using assms(3-4)
proof (induction n arbitrary: r)
  case 0
  then have "int r = rp_max_retries p" "func r = Inl (errs r)" "rp_exceptions p (errs r)"
    by simp_all
  from retry_loop_gives_up [of r p func "errs r", OF this] show ?case by simp
next
  case (Suc n)
  from Suc.prems(2) [rule_format, of 0]
  have f: "func r = Inl (errs r)" and c: "rp_exceptions p (errs r)" by simp_all
  from Suc.prems(1) have le: "int r + 1 \<le> rp_max_retries p" by simp
  have "int (Suc r) + int n = rp_max_retries p" using Suc.prems(1) by simp
  moreover have "\<forall>i\<le>n. func (Suc r + i) = Inl (errs (Suc r + i)) \<and> rp_exceptions p (errs (Suc r + i))"
  proof (intro allI impI)
    fix i assume "i \<le> n"
    then have "Suc i \<le> Suc n" by simp
    from Suc.prems(2) [rule_format, OF this]
    show "func (Suc r + i) = Inl (errs (Suc r + i)) \<and> rp_exceptions p (errs (Suc r + i))"
      by simp
  qed
  ultimately have ih: "retry_loop p func (int (Suc r)) (Suc r) =
           (Inl (Propagated (errs (Suc r + n))),
            concat (map (retry_step p errs) [Suc r..<Suc r + n]) @ [Invoke])"
    by (rule Suc.IH)
  have up: "[r..<r + Suc n] = r # [Suc r..<Suc r + n]"
    by (simp add: upt_conv_Cons)
  show ?case
    unfolding retry_loop_retries [of func r errs p, OF f c le assms(1,2)] ih up
    by simp
qed

lemma invocations_append: "invocations (xs @ ys) = invocations xs + invocations ys"
  by (induction xs rule: invocations.induct) simp_all

lemma sleeps_append: "sleeps (xs @ ys) = sleeps xs @ sleeps ys"
  by (induction xs rule: sleeps.induct) simp_all

lemma run_callbacks_append: "run_callbacks (xs @ ys) c = run_callbacks ys (run_callbacks xs c)"
  by (induction xs c rule: run_callbacks.induct) simp_all

lemma invocations_steps:
  "invocations (concat (map (retry_step p errs) [a..<a + n])) = n"
  by (induction n) (simp_all add: invocations_append retry_step_def)

lemma sleeps_steps:
  "sleeps (concat (map (retry_step p errs) [a..<a + n])) =
     map (\<lambda>i. min (rp_backoff_factor p ^ (i + 1)) (rp_max_wait p)) [a..<a + n]"
  by (induction n) (simp_all add: sleeps_append retry_step_def)

lemma callbacks_steps:
  "count (run_callbacks (concat (map (retry_step p errs) [a..<a + n])) c) =
     (if rp_on_retry p then count c + int n else count c)"
  by (induction n) (auto simp: run_callbacks_append retry_step_def increment_def)

text \<open>
  C4, as the code has it. Let \<open>max_retries\<close>, \<open>backoff_factor\<close> and \<open>max_wait\<close> be
  non-negative. If the operation raises caught errors on its first \<open>k \<le> max_retries\<close>
  calls (in particular \<open>k = max_retries\<close>) and then succeeds, the wrapper returns the
  success value after \<open>k + 1\<close> calls; before retry number \<open>n\<close> it calls \<^verbatim>\<open>on_retry\<close> (when
  one is given) and sleeps \<open>min(backoff_factor ^ n, max_wait)\<close>, so a \<^verbatim>\<open>RetryCounter\<close>
  ends at \<open>k\<close>. If the operation raises caught errors on its first \<open>max_retries + 1\<close>
  calls, the wrapper makes exactly these calls, with \<open>max_retries\<close> sleeps and callback
  calls, and re-raises the last error itself: the exception is not wrapped.
\<close>

theorem C4_retry_with_backoff:
  fixes func :: "nat \<Rightarrow> 'e + 'v" and errs :: "nat \<Rightarrow> 'e"
    and cfg :: config and max_retries :: int and backoff_factor max_wait :: rat
    and exceptions :: "'e \<Rightarrow> bool" and on_retry :: bool
  defines "p \<equiv> \<lparr> rp_max_retries = max_retries, rp_backoff_factor = backoff_factor,
                  rp_max_wait = max_wait, rp_exceptions = exceptions, rp_on_retry = on_retry \<rparr>"
    and "run \<equiv> retry_with_backoff cfg (Some max_retries) (Some backoff_factor) (Some max_wait)
                 exceptions on_retry func"
  assumes "0 \<le> max_retries" and "0 \<le> backoff_factor" and "0 \<le> max_wait"
  shows
    "(k \<le> nat max_retries \<and> (\<forall>i<k. func i = Inl (errs i) \<and> exceptions (errs i)) \<and> func k = Inr v
        \<longrightarrow> fst run = Inr v
          \<and> snd run = concat (map (retry_step p errs) [0..<k]) @ [Invoke]
          \<and> invocations (snd run) = k + 1
          \<and> sleeps (snd run) = map (\<lambda>i. min (backoff_factor ^ (i + 1)) max_wait) [0..<k]
          \<and> (on_retry \<longrightarrow> count (run_callbacks (snd run) \<lparr> count = 0 \<rparr>) = int k))
   \<and> ((\<forall>i\<le>nat max_retries. func i = Inl (errs i) \<and> exceptions (errs i))
        \<longrightarrow> fst run = Inl (Propagated (errs (nat max_retries)))
          \<and> snd run = concat (map (retry_step p errs) [0..<nat max_retries]) @ [Invoke]
          \<and> invocations (snd run) = nat max_retries + 1
          \<and> sleeps (snd run) =
              map (\<lambda>i. min (backoff_factor ^ (i + 1)) max_wait) [0..<nat max_retries]
          \<and> (on_retry \<longrightarrow> count (run_callbacks (snd run) \<lparr> count = 0 \<rparr>) = max_retries))"
proof -
  have run: "run = retry_loop p func (int 0) 0"
    by (simp add: run_def p_def retry_with_backoff_def)
  have bf: "0 \<le> rp_backoff_factor p" and mw: "0 \<le> rp_max_wait p"
    and mr: "rp_max_retries p = max_retries" and ex: "rp_exceptions p = exceptions"
    and cb: "rp_on_retry p = on_retry"
    and bfe: "rp_backoff_factor p = backoff_factor" and mwe: "rp_max_wait p = max_wait"
    using assms by (simp_all add: p_def)
  have A: "fst run = Inr v
          \<and> snd run = concat (map (retry_step p errs) [0..<k]) @ [Invoke]
          \<and> invocations (snd run) = k + 1
          \<and> sleeps (snd run) = map (\<lambda>i. min (backoff_factor ^ (i + 1)) max_wait) [0..<k]
          \<and> (on_retry \<longrightarrow> count (run_callbacks (snd run) \<lparr> count = 0 \<rparr>) = int k)"
    if k: "k \<le> nat max_retries"
      and fails: "\<forall>i<k. func i = Inl (errs i) \<and> exceptions (errs i)"
      and ok: "func k = Inr v"
  proof -
    from k assms(3) have "int 0 + int k \<le> rp_max_retries p" by (simp add: mr)
    moreover from fails
    have "\<forall>i<k. func (0 + i) = Inl (errs (0 + i)) \<and> rp_exceptions p (errs (0 + i))"
      by (simp add: ex)
    moreover from ok have "func (0 + k) = Inr v" by simp
    ultimately have "retry_loop p func (int 0) 0 =
        (Inr v, concat (map (retry_step p errs) [0..<0 + k]) @ [Invoke])"
      by (rule retry_loop_success [OF bf mw])
    then have r: "run = (Inr v, concat (map (retry_step p errs) [0..<0 + k]) @ [Invoke])"
      by (simp only: run)
    show ?thesis
      unfolding r fst_conv snd_conv
      by (simp add: invocations_append sleeps_append run_callbacks_append
          invocations_steps [of p errs 0 k, simplified]
          sleeps_steps [of p errs 0 k, simplified]
          callbacks_steps [of p errs 0 k, simplified] cb bfe mwe)
  qed
  have B: "fst run = Inl (Propagated (errs (nat max_retries)))
          \<and> snd run = concat (map (retry_step p errs) [0..<nat max_retries]) @ [Invoke]
          \<and> invocations (snd run) = nat max_retries + 1
          \<and> sleeps (snd run) =
              map (\<lambda>i. min (backoff_factor ^ (i + 1)) max_wait) [0..<nat max_retries]
          \<and> (on_retry \<longrightarrow> count (run_callbacks (snd run) \<lparr> count = 0 \<rparr>) = max_retries)"
    if fails: "\<forall>i\<le>nat max_retries. func i = Inl (errs i) \<and> exceptions (errs i)"
  proof -
    let ?n = "nat max_retries"
    from assms(3) have "int 0 + int ?n = rp_max_retries p" by (simp add: mr)
    moreover from fails
    have "\<forall>i\<le>?n. func (0 + i) = Inl (errs (0 + i)) \<and> rp_exceptions p (errs (0 + i))"
      by (simp add: ex)
    ultimately have "retry_loop p func (int 0) 0 =
        (Inl (Propagated (errs (0 + ?n))), concat (map (retry_step p errs) [0..<0 + ?n]) @ [Invoke])"
      by (rule retry_loop_exhausted [OF bf mw])
    then have r: "run = (Inl (Propagated (errs (0 + ?n))),
        concat (map (retry_step p errs) [0..<0 + ?n]) @ [Invoke])"
      by (simp only: run)
    show ?thesis
      unfolding r fst_conv snd_conv
      using assms(3)
      by (simp add: invocations_append sleeps_append run_callbacks_append
          invocations_steps [of p errs 0 ?n, simplified]
          sleeps_steps [of p errs 0 ?n, simplified]
          callbacks_steps [of p errs 0 ?n, simplified] cb bfe mwe)
  qed
  from A B show ?thesis by blast
qed

theorem C4_retry_with_backoff_witness:
  "fst (retry_with_backoff default_config (Some 2) (Some 2) (Some 60) catch_all True flaky) = Inr 42
   \<and> sleeps (snd (retry_with_backoff default_config (Some 2) (Some 2) (Some 60) catch_all True flaky))
       = [2, 4]
   \<and> count (run_callbacks
        (snd (retry_with_backoff default_config (Some 2) (Some 2) (Some 60) catch_all True flaky))
        \<lparr> count = 0 \<rparr>) = 2
   \<and> fst (retry_with_backoff default_config (Some 2) (Some 2) (Some 60) catch_all True always_down)
       = Inl (Propagated ''down'')
   \<and> invocations
        (snd (retry_with_backoff default_config (Some 2) (Some 2) (Some 60) catch_all True always_down))
       = 3"
proof -
  have a: "(0::int) \<le> 2" and b: "(0::rat) \<le> 2" and c: "(0::rat) \<le> 60" by simp_all
  have f: "(2::nat) \<le> nat 2 \<and> (\<forall>i<2. flaky i = Inl ''transient'' \<and> catch_all ''transient'')
      \<and> flaky 2 = Inr 42"
    by (simp add: flaky_def catch_all_def)
  have d: "\<forall>i\<le>nat 2. always_down i = Inl ''down'' \<and> catch_all ''down''"
    by (simp add: always_down_def catch_all_def)
  have u: "[0..<2] = [0, Suc 0]" by (simp add: upt_rec)
  note ok = C4_retry_with_backoff [OF a b c, where func = flaky and errs = "\<lambda>i. ''transient''"
      and k = 2 and v = 42 and exceptions = catch_all and on_retry = True
      and cfg = default_config, THEN conjunct1, THEN mp, OF f]
  note ex = C4_retry_with_backoff [OF a b c, where func = always_down and errs = "\<lambda>i. ''down''"
      and exceptions = catch_all and on_retry = True and cfg = default_config,
      THEN conjunct2, THEN mp, OF d]
  have 1: "fst (retry_with_backoff default_config (Some 2) (Some 2) (Some 60) catch_all True flaky)
      = Inr 42"
    using ok [THEN conjunct1] .
  have 2: "sleeps (snd (retry_with_backoff default_config (Some 2) (Some 2) (Some 60) catch_all True flaky))
       = [2, 4]"
    using ok [THEN conjunct2, THEN conjunct2, THEN conjunct2, THEN conjunct1] by (simp add: u)
  have 3: "count (run_callbacks
        (snd (retry_with_backoff default_config (Some 2) (Some 2) (Some 60) catch_all True flaky))
        \<lparr> count = 0 \<rparr>) = 2"
    using ok [THEN conjunct2, THEN conjunct2, THEN conjunct2, THEN conjunct2] by simp
  have 4: "fst (retry_with_backoff default_config (Some 2) (Some 2) (Some 60) catch_all True always_down)
       = Inl (Propagated ''down'')"
    using ex [THEN conjunct1] by simp
  have 5: "invocations
        (snd (retry_with_backoff default_config (Some 2) (Some 2) (Some 60) catch_all True always_down))
       = 3"
    using ex [THEN conjunct2, THEN conjunct2, THEN conjunct1] by simp
  from 1 2 3 4 5 show ?thesis by blast
qed

text \<open>
  The claim as the specification words it fails in three places. After
  \<open>max_retries + 1\<close> failures the wrapper re-raises the error of the operation as it is,
  not a wrapper around it. With a negative \<open>max_wait\<close> the first retry ends in the
  \<^verbatim>\<open>ValueError\<close> of \<^verbatim>\<open>time.sleep\<close> instead of the success value. With a negative
  \<open>max_retries\<close> the loop body never runs and \<^verbatim>\<open>RuntimeError\<close> is raised.
\<close>

theorem C4_error_not_wrapped_counterexample:
  "retry_with_backoff default_config (Some 2) (Some 2) (Some 60) catch_all True always_down
     = (Inl (Propagated ''down''),
        [Invoke, OnRetry 1 ''down'', Sleep 2, Invoke, OnRetry 2 ''down'', Sleep 4, Invoke])
   \<and> retry_with_backoff default_config (Some 2) (Some 2) (Some (- 1)) catch_all True flaky
     = (Inl SleepValueError, [Invoke, OnRetry 1 ''transient''])
   \<and> retry_with_backoff default_config (Some (- 1)) (Some 2) (Some 60) catch_all True flaky
     = (Inl RuntimeError, [])"
  by (simp add: retry_with_backoff_def retry_loop.simps catch_all_def always_down_def flaky_def)

lemma openai_loop_stops:
  assumes "\<not> retries \<le> mr"
  shows "openai_loop cfg mr func retries calls = (Inl RuntimeError, [])"
  using assms by (subst openai_loop.simps) simp

lemma openai_loop_returns:
  assumes "retries \<le> mr" and "func calls = Inr v"
  shows "openai_loop cfg mr func retries calls = (Inr v, [Invoke])"
  using assms by (subst openai_loop.simps) simp

lemma openai_loop_fatal:
  assumes "retries \<le> mr" and "func calls = Inl e" and "\<not> retryable e"
  shows "openai_loop cfg mr func retries calls = (Inl (Propagated e), [Invoke])"
  using assms by (subst openai_loop.simps) (simp add: Let_def retryable_def)

lemma openai_loop_retry:
  assumes "retries \<le> mr" and "func calls = Inl e" and "retryable e"
    and "retries + 1 \<le> mr" and "\<not> openai_wait cfg e (nat (retries + 1)) < 0"
  shows "openai_loop cfg mr func retries calls =
           (fst (openai_loop cfg mr func (retries + 1) (calls + 1)),
            Invoke # Sleep (openai_wait cfg e (nat (retries + 1)))
              # snd (openai_loop cfg mr func (retries + 1) (calls + 1)))"
  using assms
  by (subst openai_loop.simps)
    (auto simp: Let_def retryable_def openai_wait_def case_prod_beta)

lemma openai_loop_gives_up:
  assumes "retries \<le> mr" and "func calls = Inl e" and "retryable e"
    and "\<not> (retries + 1 \<le> mr \<and> \<not> openai_wait cfg e (nat (retries + 1)) < 0)"
  shows "snd (openai_loop cfg mr func retries calls) = [Invoke]"
  using assms
  by (subst openai_loop.simps)
    (auto simp: Let_def retryable_def openai_wait_def case_prod_beta)

lemma openai_loop_cases:
  assumes "retries \<le> mr" and "func calls = Inl e" and "retryable e"
  shows "snd (openai_loop cfg mr func retries calls) = [Invoke]
       \<or> (openai_loop cfg mr func retries calls =
           (fst (openai_loop cfg mr func (retries + 1) (calls + 1)),
            Invoke # Sleep (openai_wait cfg e (nat (retries + 1)))
              # snd (openai_loop cfg mr func (retries + 1) (calls + 1)))
         \<and> retries + 1 \<le> mr)"
proof (cases "retries + 1 \<le> mr \<and> \<not> openai_wait cfg e (nat (retries + 1)) < 0")
  case True
  with openai_loop_retry [where func = func and calls = calls and e = e and cfg = cfg,
      OF assms] show ?thesis by blast
next
  case False
  with openai_loop_gives_up [where func = func and calls = calls and e = e and cfg = cfg,
      OF assms] show ?thesis by blast
qed

lemma openai_loop_shape:
  assumes "retries \<le> mr"
  shows "snd (openai_loop cfg mr func retries calls) =
     concat (map (\<lambda>w. [Invoke, Sleep w]) (sleeps (snd (openai_loop cfg mr func retries calls))))
       @ [Invoke]"
  using assms
proof (induction "nat (mr + 1 - retries)" arbitrary: retries calls)
  case 0
  then show ?case by simp
next
  case (Suc m)
  show ?case
  proof (cases "func calls")
    case (Inr v)
    with Suc.prems show ?thesis by (simp add: openai_loop_returns)
  next
    case (Inl e)
    show ?thesis
    proof (cases "retryable e")
      case False
      with Suc.prems Inl show ?thesis by (simp add: openai_loop_fatal)
    next
      case True
      from openai_loop_cases [where func = func and calls = calls and e = e and cfg = cfg,
          OF Suc.prems Inl True]
      show ?thesis
      proof (elim disjE conjE)
        assume "snd (openai_loop cfg mr func retries calls) = [Invoke]"
        then show ?thesis by simp
      next
        assume eq: "openai_loop cfg mr func retries calls =
           (fst (openai_loop cfg mr func (retries + 1) (calls + 1)),
            Invoke # Sleep (openai_wait cfg e (nat (retries + 1)))
              # snd (openai_loop cfg mr func (retries + 1) (calls + 1)))"
          and le: "retries + 1 \<le> mr"
        from Suc.hyps(2) have "m = nat (mr + 1 - (retries + 1))" by simp
        from Suc.hyps(1) [OF this le, of "calls + 1"]
        have ih: "snd (openai_loop cfg mr func (retries + 1) (calls + 1)) =
           concat (map (\<lambda>w. [Invoke, Sleep w])
             (sleeps (snd (openai_loop cfg mr func (retries + 1) (calls + 1))))) @ [Invoke]" .
        show ?thesis
          unfolding eq snd_conv
          by (subst (1) ih) simp
      qed
    qed
  qed
qed

lemma openai_loop_last:
  assumes "i < invocations (snd (openai_loop cfg mr func retries calls))"
    and "func (calls + i) = Inl e" and "\<not> retryable e"
  shows "Suc i = invocations (snd (openai_loop cfg mr func retries calls))
       \<and> fst (openai_loop cfg mr func retries calls) = Inl (Propagated e)"
  using assms
proof (induction "nat (mr + 1 - retries)" arbitrary: retries calls i)
  case 0
  then have "\<not> retries \<le> mr" by simp
  with "0.prems" show ?case by (simp add: openai_loop_stops)
next
  case (Suc m)
  then have le: "retries \<le> mr" by simp
  show ?case
  proof (cases "func calls")
    case (Inr v)
    with le Suc.prems show ?thesis by (cases i) (simp_all add: openai_loop_returns)
  next
    case (Inl e0)
    show ?thesis
    proof (cases "retryable e0")
      case False
      with le Inl Suc.prems show ?thesis by (cases i) (simp_all add: openai_loop_fatal)
    next
      case True
      from openai_loop_cases [where func = func and calls = calls and e = e0 and cfg = cfg,
          OF le Inl True]
      show ?thesis
      proof (elim disjE conjE)
        assume s: "snd (openai_loop cfg mr func retries calls) = [Invoke]"
        with Suc.prems(1) have "i = 0" by simp
        with Suc.prems(2,3) Inl True show ?thesis by simp
      next
        assume eq: "openai_loop cfg mr func retries calls =
           (fst (openai_loop cfg mr func (retries + 1) (calls + 1)),
            Invoke # Sleep (openai_wait cfg e0 (nat (retries + 1)))
              # snd (openai_loop cfg mr func (retries + 1) (calls + 1)))"
          and le': "retries + 1 \<le> mr"
        from Suc.prems(2,3) Inl True have "i \<noteq> 0" by (cases i) auto
        then obtain j where j: "i = Suc j" by (cases i) auto
        from Suc.prems(1)
        have "j < invocations (snd (openai_loop cfg mr func (retries + 1) (calls + 1)))"
          unfolding eq j by simp
        moreover from Suc.prems(2) j have "func (calls + 1 + j) = Inl e" by simp
        moreover from Suc.hyps(2) have "m = nat (mr + 1 - (retries + 1))" by simp
        ultimately have
          "Suc j = invocations (snd (openai_loop cfg mr func (retries + 1) (calls + 1)))
          \<and> fst (openai_loop cfg mr func (retries + 1) (calls + 1)) = Inl (Propagated e)"
          using Suc.hyps(1) Suc.prems(3) by blast
        then show ?thesis unfolding eq j by simp
      qed
    qed
  qed
qed

lemma openai_loop_retried:
  assumes "Suc i < invocations (snd (openai_loop cfg mr func retries calls))"
  shows "\<exists>e. func (calls + i) = Inl e \<and> retryable e"
  using assms
proof (induction "nat (mr + 1 - retries)" arbitrary: retries calls i)
  case 0
  then have "\<not> retries \<le> mr" by simp
  with "0.prems" show ?case by (simp add: openai_loop_stops)
next
  case (Suc m)
  then have le: "retries \<le> mr" by simp
  show ?case
  proof (cases "func calls")
    case (Inr v)
    with le Suc.prems show ?thesis by (simp add: openai_loop_returns)
  next
    case (Inl e0)
    show ?thesis
    proof (cases "retryable e0")
      case False
      with le Inl Suc.prems show ?thesis by (simp add: openai_loop_fatal)
    next
      case True
      from openai_loop_cases [where func = func and calls = calls and e = e0 and cfg = cfg,
          OF le Inl True]
      show ?thesis
      proof (elim disjE conjE)
        assume s: "snd (openai_loop cfg mr func retries calls) = [Invoke]"
        with Suc.prems show ?thesis by simp
      next
        assume eq: "openai_loop cfg mr func retries calls =
           (fst (openai_loop cfg mr func (retries + 1) (calls + 1)),
            Invoke # Sleep (openai_wait cfg e0 (nat (retries + 1)))
              # snd (openai_loop cfg mr func (retries + 1) (calls + 1)))"
          and le': "retries + 1 \<le> mr"
        show ?thesis
        proof (cases i)
          case 0
          with Inl True show ?thesis by simp
        next
          case (Suc j)
          with Suc.prems
          have "Suc j < invocations (snd (openai_loop cfg mr func (retries + 1) (calls + 1)))"
            unfolding eq by simp
          moreover from Suc.hyps(2) have "m = nat (mr + 1 - (retries + 1))" by simp
          ultimately have "\<exists>e. func (calls + 1 + j) = Inl e \<and> retryable e"
            using Suc.hyps(1) by blast
          with Suc show ?thesis by simp
        qed
      qed
    qed
  qed
qed

lemma openai_wait_nonneg:
  assumes "0 \<le> RETRY_BACKOFF_FACTOR cfg" and "0 \<le> RETRY_MAX_WAIT cfg"
  shows "\<not> openai_wait cfg e n < 0"
proof -
  have p: "0 \<le> RETRY_BACKOFF_FACTOR cfg ^ n" using assms(1) by (rule zero_le_power)
  then have "0 \<le> RETRY_BACKOFF_FACTOR cfg ^ n * 2" by simp
  with assms(2) p have "0 \<le> openai_wait cfg e n"
    unfolding openai_wait_def by (simp only: min_def split: if_split) simp
  then show ?thesis by (simp only: not_less)
qed

lemma openai_loop_retries_then_fatal:
  assumes "0 \<le> RETRY_BACKOFF_FACTOR cfg" and "0 \<le> RETRY_MAX_WAIT cfg"
    and "int r + int k \<le> mr"
    and "\<forall>i<k. func (r + i) = Inl (errs (r + i)) \<and> retryable (errs (r + i))"
    and "func (r + k) = Inl e" and "\<not> retryable e"
  shows "openai_loop cfg mr func (int r) r =
     (Inl (Propagated e),
      concat (map (\<lambda>i. [Invoke, Sleep (openai_wait cfg (errs i) (i + 1))]) [r..<r + k]) @ [Invoke])"
  using assms(3-5)
proof (induction k arbitrary: r)
  case 0
  with assms(6) show ?case by (simp add: openai_loop_fatal)
next
  case (Suc k)
  from Suc.prems(2) [rule_format, of 0]
  have f: "func r = Inl (errs r)" and c: "retryable (errs r)" by simp_all
  from Suc.prems(1) have le: "int r \<le> mr" and le1: "int r + 1 \<le> mr" by simp_all
  have "int (Suc r) + int k \<le> mr" using Suc.prems(1) by simp
  moreover have "\<forall>i<k. func (Suc r + i) = Inl (errs (Suc r + i)) \<and> retryable (errs (Suc r + i))"
  proof (intro allI impI)
    fix i assume "i < k"
    then have "Suc i < Suc k" by simp
    from Suc.prems(2) [rule_format, OF this]
    show "func (Suc r + i) = Inl (errs (Suc r + i)) \<and> retryable (errs (Suc r + i))" by simp
  qed
  moreover have "func (Suc r + k) = Inl e" using Suc.prems(3) by simp
  ultimately have ih: "openai_loop cfg mr func (int (Suc r)) (Suc r) =
     (Inl (Propagated e),
      concat (map (\<lambda>i. [Invoke, Sleep (openai_wait cfg (errs i) (i + 1))]) [Suc r..<Suc r + k])
        @ [Invoke])"
    by (rule Suc.IH)
  have s: "int r + 1 = int (Suc r)" "r + 1 = Suc r" by simp_all
  have up: "[r..<r + Suc k] = r # [Suc r..<Suc r + k]" by (simp add: upt_conv_Cons)
  from openai_loop_retry [of "int r" mr func r "errs r" cfg, OF le f c le1
      openai_wait_nonneg [OF assms(1,2)]]
  have "openai_loop cfg mr func (int r) r =
           (fst (openai_loop cfg mr func (int (Suc r)) (Suc r)),
            Invoke # Sleep (openai_wait cfg (errs r) (Suc r))
              # snd (openai_loop cfg mr func (int (Suc r)) (Suc r)))"
    by (simp only: s nat_int)
  then show ?case unfolding ih up by simp
qed

text \<open>
  C5. An error is retryable when its message matches one of the three marker classes of
  \<^verbatim>\<open>retry_openai_call\<close> (\<^verbatim>\<open>429\<close> or \<^verbatim>\<open>rate_limit\<close>; \<^verbatim>\<open>timeout\<close> or \<^verbatim>\<open>timed out\<close>;
  \<^verbatim>\<open>500\<close>, \<^verbatim>\<open>502\<close>, \<^verbatim>\<open>503\<close>, \<^verbatim>\<open>504\<close>; the word markers are looked for in the
  lower-cased message, as the code does). For every operation, configuration and
  number of retries:
  \<^item> if the first call raises an error that is not retryable, the wrapper re-raises it
    after this one call, without a sleep;
  \<^item> if the first \<open>k\<close> calls raise retryable errors (\<open>k\<close> within the retries allowed, the
    configured waits non-negative) and call \<open>k\<close> raises an error that is not, the wrapper
    re-raises that error as it is, and its trace is the \<open>k\<close> retried calls, each followed
    by its sleep, and then the last call: no sleep and no call after it;
  \<^item> whichever call raises an error that is not retryable is the last call, and its
    error is what the wrapper raises;
  \<^item> a trace is calls separated by single sleeps and it ends with a call;
  \<^item> every call that is followed by another call raised a retryable error.
\<close>

theorem C5_unmarked_errors_not_retried:
  fixes func :: "nat \<Rightarrow> exn + 'v" and cfg :: config and retries_arg :: "int option"
  defines "mr \<equiv> (case retries_arg of None \<Rightarrow> MAX_RETRIES cfg | Some m \<Rightarrow> m)"
    and "run \<equiv> retry_openai_call cfg retries_arg func"
  shows
    "(0 \<le> mr \<and> func 0 = Inl e \<and> \<not> retryable e
        \<longrightarrow> run = (Inl (Propagated e), [Invoke]))
   \<and> (0 \<le> RETRY_BACKOFF_FACTOR cfg \<and> 0 \<le> RETRY_MAX_WAIT cfg \<and> int k \<le> mr
        \<and> (\<forall>i<k. func i = Inl (errs i) \<and> retryable (errs i))
        \<and> func k = Inl e \<and> \<not> retryable e
        \<longrightarrow> run = (Inl (Propagated e),
                   concat (map (\<lambda>i. [Invoke, Sleep (openai_wait cfg (errs i) (i + 1))]) [0..<k])
                     @ [Invoke]))
   \<and> (\<forall>i e'. i < invocations (snd run) \<and> func i = Inl e' \<and> \<not> retryable e'
        \<longrightarrow> Suc i = invocations (snd run) \<and> fst run = Inl (Propagated e'))
   \<and> (0 \<le> mr
        \<longrightarrow> snd run = concat (map (\<lambda>w. [Invoke, Sleep w]) (sleeps (snd run))) @ [Invoke])
   \<and> (\<forall>i. Suc i < invocations (snd run) \<longrightarrow> (\<exists>e'. func i = Inl e' \<and> retryable e'))"
proof -
  have run: "run = openai_loop cfg mr func (int 0) 0"
    by (simp add: run_def mr_def retry_openai_call_def)
  have 1: "run = (Inl (Propagated e), [Invoke])"
    if "0 \<le> mr \<and> func 0 = Inl e \<and> \<not> retryable e"
    using that unfolding run by (simp add: openai_loop_fatal)
  have 2: "run = (Inl (Propagated e),
                   concat (map (\<lambda>i. [Invoke, Sleep (openai_wait cfg (errs i) (i + 1))]) [0..<k])
                     @ [Invoke])"
    if h: "0 \<le> RETRY_BACKOFF_FACTOR cfg \<and> 0 \<le> RETRY_MAX_WAIT cfg \<and> int k \<le> mr
        \<and> (\<forall>i<k. func i = Inl (errs i) \<and> retryable (errs i))
        \<and> func k = Inl e \<and> \<not> retryable e"
  proof -
    from h have a: "0 \<le> RETRY_BACKOFF_FACTOR cfg" and b: "0 \<le> RETRY_MAX_WAIT cfg"
      and c: "int 0 + int k \<le> mr"
      and d: "\<forall>i<k. func (0 + i) = Inl (errs (0 + i)) \<and> retryable (errs (0 + i))"
      and f: "func (0 + k) = Inl e" and g: "\<not> retryable e"
      by simp_all
    from openai_loop_retries_then_fatal [where func = func and errs = errs and r = 0 and k = k
        and e = e, OF a b c d f g]
    show ?thesis unfolding run by simp
  qed
  have 3: "Suc i = invocations (snd run) \<and> fst run = Inl (Propagated e')"
    if "i < invocations (snd run) \<and> func i = Inl e' \<and> \<not> retryable e'" for i e'
    using that openai_loop_last [where func = func and calls = 0 and i = i and e = e'
        and cfg = cfg and mr = mr and retries = "int 0"]
    unfolding run by simp
  have 4: "snd run = concat (map (\<lambda>w. [Invoke, Sleep w]) (sleeps (snd run))) @ [Invoke]"
    if "0 \<le> mr"
    using that openai_loop_shape [where func = func and calls = 0 and cfg = cfg and mr = mr
        and retries = "int 0"]
    unfolding run by simp
  have 5: "\<exists>e'. func i = Inl e' \<and> retryable e'" if "Suc i < invocations (snd run)" for i
    using that openai_loop_retried [where func = func and calls = 0 and i = i
        and cfg = cfg and mr = mr and retries = "int 0"]
    unfolding run by simp
  from 1 2 3 4 5 show ?thesis by blast
qed

theorem C5_unmarked_errors_not_retried_witness:
  "retry_openai_call default_config (Some 3) bad_key
     = (Inl (Propagated (Exn ''AuthenticationError'' ''Invalid API key'')), [Invoke])
   \<and> retry_openai_call default_config (Some 3) timeout_then_bad_key
     = (Inl (Propagated (Exn ''AuthenticationError'' ''Invalid API key'')),
        [Invoke, Sleep 2, Invoke])"
proof -
  let ?bad = "Exn ''AuthenticationError'' ''Invalid API key''"
  let ?slow = "Exn ''APITimeoutError'' ''Request timed out.''"
  have nb: "\<not> retryable ?bad" by code_simp
  have rs: "retryable ?slow" by code_simp
  have nr: "\<not> is_rate_limit (exn_msg ?slow)" by code_simp
  have w: "openai_wait default_config ?slow 1 = 2"
    using nr by (simp add: openai_wait_def default_config_def)
  have h1: "0 \<le> (case Some 3 of None \<Rightarrow> MAX_RETRIES default_config | Some m \<Rightarrow> m)
      \<and> bad_key 0 = Inl ?bad \<and> \<not> retryable ?bad"
    using nb by (simp add: bad_key_def)
  have h2: "0 \<le> RETRY_BACKOFF_FACTOR default_config \<and> 0 \<le> RETRY_MAX_WAIT default_config
        \<and> int 1 \<le> (case Some 3 of None \<Rightarrow> MAX_RETRIES default_config | Some m \<Rightarrow> m)
        \<and> (\<forall>i<1. timeout_then_bad_key i = Inl ?slow \<and> retryable ?slow)
        \<and> timeout_then_bad_key 1 = Inl ?bad \<and> \<not> retryable ?bad"
    using nb rs by (simp add: timeout_then_bad_key_def default_config_def)
  note a = C5_unmarked_errors_not_retried [where func = bad_key and e = ?bad
      and cfg = default_config and retries_arg = "Some 3", THEN conjunct1, THEN mp, OF h1]
  note b = C5_unmarked_errors_not_retried [where func = timeout_then_bad_key and e = ?bad
      and errs = "\<lambda>i. ?slow" and k = 1 and cfg = default_config and retries_arg = "Some 3",
      THEN conjunct2, THEN conjunct1, THEN mp, OF h2]
  from b w have "retry_openai_call default_config (Some 3) timeout_then_bad_key
     = (Inl (Propagated ?bad), [Invoke, Sleep 2, Invoke])"
    by simp
  with a show ?thesis by simp
qed

end
